theory Spec2Isabelle
  imports Complex_Main
begin

section \<open>Python values\<close>

text \<open>
  The module \<open>ams/ai.py\<close> inspects its arguments with \<open>isinstance\<close> and with Python's
  truth test, so arguments of dynamic type are kept as values of \<open>pyval\<close>. A \<open>float\<close> is
  a finite number or one of the three special values; \<open>PObj c\<close> is an instance of a class
  \<open>c\<close> that is none of the built-in types (a \<open>Message\<close>, a \<open>TokenSet\<close>). A \<open>dict\<close>
  with string keys is an association list, read with \<open>map_of\<close>.
\<close>

datatype error = TypeError | ValueError | IndexError | AttributeError

datatype pyfloat = Finite real | NaN | PosInf | NegInf

datatype pyval =
    PNone
  | PBool bool
  | PInt int
  | PFloat pyfloat
  | PStr string
  | PList "pyval list"
  | PDict "(string \<times> pyval) list"
  | PObj string

text \<open>\<open>isinstance(v, int)\<close> holds for \<open>bool\<close> too: \<open>bool\<close> is a subclass of \<open>int\<close>.\<close>

fun is_int :: "pyval \<Rightarrow> bool" where
  "is_int (PInt i) = True"
| "is_int (PBool b) = True"
| "is_int v = False"

fun is_str :: "pyval \<Rightarrow> bool" where
  "is_str (PStr s) = True"
| "is_str v = False"

fun is_list :: "pyval \<Rightarrow> bool" where
  "is_list (PList xs) = True"
| "is_list v = False"

fun is_dict :: "pyval \<Rightarrow> bool" where
  "is_dict (PDict d) = True"
| "is_dict v = False"

fun is_float :: "pyval \<Rightarrow> bool" where
  "is_float (PFloat f) = True"
| "is_float v = False"

fun is_bool :: "pyval \<Rightarrow> bool" where
  "is_bool (PBool b) = True"
| "is_bool v = False"

text \<open>\<open>v == k\<close> for an integer constant \<open>k\<close>: \<open>False == 0\<close> and \<open>True == 1\<close>.\<close>

fun py_eq_int :: "pyval \<Rightarrow> int \<Rightarrow> bool" where
  "py_eq_int (PInt i) k = (i = k)"
| "py_eq_int (PBool b) k = ((if b then 1 else 0) = k)"
| "py_eq_int (PFloat (Finite r)) k = (r = of_int k)"
| "py_eq_int v k = False"

text \<open>Python's truth test, as in \<open>if value and ...\<close>.\<close>

fun truthy :: "pyval \<Rightarrow> bool" where
  "truthy PNone = False"
| "truthy (PBool b) = b"
| "truthy (PInt i) = (i \<noteq> 0)"
| "truthy (PFloat (Finite r)) = (r \<noteq> 0)"
| "truthy (PFloat f) = True"
| "truthy (PStr s) = (s \<noteq> [])"
| "truthy (PList xs) = (xs \<noteq> [])"
| "truthy (PDict d) = (d \<noteq> [])"
| "truthy (PObj c) = True"

text \<open>
  \<open>xs[i]\<close>: a negative index counts from the end, an index out of range raises
  \<open>IndexError\<close>. \<open>xs.index(x)\<close>: the first position of \<open>x\<close>, \<open>ValueError\<close> when absent.
\<close>

definition py_get :: "'a list \<Rightarrow> int \<Rightarrow> error + 'a" where
  "py_get xs i =
     (if 0 \<le> i \<and> i < int (length xs) then Inr (xs ! nat i)
      else if i < 0 \<and> - int (length xs) \<le> i then Inr (xs ! nat (int (length xs) + i))
      else Inl IndexError)"

fun list_index :: "'a list \<Rightarrow> 'a \<Rightarrow> error + nat" where
  "list_index [] x = Inl ValueError"
| "list_index (y # ys) x =
     (if y = x then Inr 0
      else (case list_index ys x of Inl e \<Rightarrow> Inl e | Inr i \<Rightarrow> Inr (Suc i)))"

section \<open>Message, Usage, Response\<close>

text \<open>
  A \<open>Message\<close> whose setters have accepted its attributes: \<open>role\<close>, \<open>content\<close> and \<open>id\<close>
  are strings, \<open>created\<close> is an \<open>int\<close> (possibly a \<open>bool\<close>, kept as it was given).
\<close>

record message =
  m_role :: string
  m_content :: string
  m_id :: string
  m_created :: pyval

definition DEFAULT_ID :: string where
  "DEFAULT_ID = ''00000000-0000-0000-0000-000000000000''"

definition DEFAULT_TIME :: pyval where
  "DEFAULT_TIME = PInt 0"

text \<open>\<open>Message.__init__\<close>: the four setters run in the order role, content, id, created.\<close>

definition Message_init :: "pyval \<Rightarrow> pyval \<Rightarrow> pyval \<Rightarrow> pyval \<Rightarrow> error + message" where
  "Message_init role content ident created =
     (case role of
        PStr r \<Rightarrow>
          (case content of
             PStr c \<Rightarrow>
               (case ident of
                  PStr i \<Rightarrow>
                    (if is_int created
                     then Inr \<lparr>m_role = r, m_content = c, m_id = i, m_created = created\<rparr>
                     else Inl TypeError)
                | _ \<Rightarrow> Inl TypeError)
           | _ \<Rightarrow> Inl TypeError)
      | _ \<Rightarrow> Inl TypeError)"

definition Message_Default :: message where
  "Message_Default = \<lparr>m_role = [], m_content = [], m_id = DEFAULT_ID, m_created = PInt 0\<rparr>"

definition Message_isDefault :: "message \<Rightarrow> bool" where
  "Message_isDefault m \<longleftrightarrow>
     m_role m = [] \<and> m_content m = [] \<and> m_id m = DEFAULT_ID \<and> py_eq_int (m_created m) 0"

definition Message_toApiMessage :: "message \<Rightarrow> pyval" where
  "Message_toApiMessage m = PDict [(''role'', PStr (m_role m)), (''content'', PStr (m_content m))]"

text \<open>
  A choice of a response is a \<open>Message\<close> or a \<open>PartialMessage\<close>. A \<open>PartialMessage\<close> is
  kept with the contents of its chain of fragments, from \<open>first\<close> along \<open>next\<close>;
  \<open>toMessage\<close> concatenates them, and is the identity on a plain \<open>Message\<close>.
\<close>

datatype choice = PlainMessage message | PartialMessage message "string list"

fun toMessage :: "choice \<Rightarrow> message" where
  "toMessage (PlainMessage m) = m"
| "toMessage (PartialMessage m frags) = m\<lparr>m_content := concat frags\<rparr>"

fun toApiMessage :: "choice \<Rightarrow> pyval" where
  "toApiMessage (PlainMessage m) = Message_toApiMessage m"
| "toApiMessage (PartialMessage m frags) =
     PDict [(''role'', PStr (m_role m)),
            (''content'', PStr (m_content (toMessage (PartialMessage m frags))))]"

record usage =
  prompt_tokens :: pyval
  completion_tokens :: pyval
  total_tokens :: pyval

definition Usage_Default :: usage where
  "Usage_Default = \<lparr>prompt_tokens = PInt 0, completion_tokens = PInt 0, total_tokens = PInt 0\<rparr>"

definition Usage_isDefault :: "usage \<Rightarrow> bool" where
  "Usage_isDefault u \<longleftrightarrow>
     py_eq_int (prompt_tokens u) 0 \<and> py_eq_int (completion_tokens u) 0
       \<and> py_eq_int (total_tokens u) 0"

definition toApiUsage :: "usage \<Rightarrow> pyval" where
  "toApiUsage u =
     PDict [(''prompt_tokens'', prompt_tokens u),
            (''completion_tokens'', completion_tokens u),
            (''total_tokens'', total_tokens u)]"

record response =
  r_choices :: "choice list"
  r_created :: pyval
  r_id :: string
  r_model :: string
  r_object :: string
  r_usage :: usage

definition Response_Default :: response where
  "Response_Default =
     \<lparr>r_choices = [], r_created = PInt 0, r_id = [], r_model = [], r_object = [],
      r_usage = Usage_Default\<rparr>"

definition Response_isDefault :: "response \<Rightarrow> bool" where
  "Response_isDefault r \<longleftrightarrow>
     r_choices r = [] \<and> py_eq_int (r_created r) 0 \<and> r_id r = [] \<and> r_model r = []
       \<and> r_object r = [] \<and> Usage_isDefault (r_usage r)"

section \<open>The object store, ChatEntry and Chat\<close>

text \<open>
  \<open>ChatEntry\<close> and \<open>Response\<close> objects, and the \<open>Message\<close> objects that are prompts,
  are compared by identity and mutated in place, so they live in a store and are named by
  their addresses: an entry holds the address of its prompt and of its response, and one
  \<open>Message\<close> handed to two entries is one object. The store allocates addresses in
  increasing order. The same record holds the attributes of the one \<open>Chat\<close> object that
  is followed. \<open>_cursor\<close> is only ever assigned a
  \<open>ChatEntry\<close>, so it is an address and the \<open>is None\<close> guards on it have no branch.
\<close>

record chat_entry =
  e_prompt :: nat
  e_response :: nat
  e_parent :: "nat option"
  e_children :: "nat list"

type_synonym heap = "nat \<Rightarrow> chat_entry"

record state =
  entries :: heap
  next_entry :: nat
  responses :: "nat \<Rightarrow> response"
  next_response :: nat
  prompts :: "nat \<Rightarrow> message"
  next_prompt :: nat
  c_root :: nat
  c_current :: nat
  c_previous :: "nat option"
  c_cursor :: nat
  c_path :: "nat list"
  c_cursorPath :: "nat list"
  c_cursorSiblingIndex :: int

text \<open>
  A call returns with a new state, or raises with the state as the exception left it;
  a call that does not return at all is \<open>None\<close>.
\<close>

datatype outcome = Ok state | Raise error state

fun state_of :: "outcome \<Rightarrow> state" where
  "state_of (Ok s) = s"
| "state_of (Raise e s) = s"

text \<open>
  A default argument is evaluated once, when the \<open>def\<close> is executed. The three
  \<open>Response.Default()\<close> defaults of \<open>ChatEntry.__init__\<close>, \<open>Chat.addSibling\<close> and
  \<open>Chat.addDescendant\<close> are therefore three objects made when the module is loaded, in
  this order.
\<close>

definition ChatEntry_init_default :: nat where
  "ChatEntry_init_default = 0"

definition addSibling_default :: nat where
  "addSibling_default = 1"

definition addDescendant_default :: nat where
  "addDescendant_default = 2"

definition module_store :: state where
  "module_store =
     \<lparr>entries = (\<lambda>a. \<lparr>e_prompt = 0, e_response = 0, e_parent = None, e_children = []\<rparr>),
      next_entry = 0,
      responses = (\<lambda>a. Response_Default),
      next_response = 3,
      prompts = (\<lambda>a. Message_Default),
      next_prompt = 0,
      c_root = 0, c_current = 0, c_previous = None, c_cursor = 0, c_path = [],
      c_cursorPath = [], c_cursorSiblingIndex = 0\<rparr>"

definition Response_new :: "response \<Rightarrow> state \<Rightarrow> nat \<times> state" where
  "Response_new r s =
     (next_response s,
      s\<lparr>responses := (responses s)(next_response s := r),
        next_response := Suc (next_response s)\<rparr>)"

text \<open>A \<open>Message\<close> made by its constructor is a new object of the store.\<close>

definition Message_alloc :: "message \<Rightarrow> state \<Rightarrow> nat \<times> state" where
  "Message_alloc m s =
     (next_prompt s,
      s\<lparr>prompts := (prompts s)(next_prompt s := m),
        next_prompt := Suc (next_prompt s)\<rparr>)"

text \<open>\<open>ChatEntry.__init__\<close>: the new entry appends itself to its parent's children.\<close>

definition ChatEntry_init :: "nat \<Rightarrow> nat \<Rightarrow> nat option \<Rightarrow> state \<Rightarrow> nat \<times> state" where
  "ChatEntry_init p r par s =
     (let a = next_entry s;
          s1 = s\<lparr>entries := (entries s)
                   (a := \<lparr>e_prompt = p, e_response = r, e_parent = par, e_children = []\<rparr>),
                 next_entry := Suc a\<rparr>
      in case par of
           None \<Rightarrow> (a, s1)
         | Some q \<Rightarrow>
             (a, s1\<lparr>entries := (entries s1)
                      (q := (entries s1 q)\<lparr>e_children := e_children (entries s1 q) @ [a]\<rparr>)\<rparr>))"

text \<open>
  The methods of \<open>ChatEntry\<close> that only follow the links between entries read the
  entries of the store.
\<close>

definition ChatEntry_index :: "heap \<Rightarrow> nat \<Rightarrow> error + nat" where
  "ChatEntry_index h e =
     (case e_parent (h e) of
        None \<Rightarrow> Inr 0
      | Some p \<Rightarrow> list_index (e_children (h p)) e)"

definition isDefaultContent :: "state \<Rightarrow> nat \<Rightarrow> bool" where
  "isDefaultContent s e \<longleftrightarrow>
     Message_isDefault (prompts s (e_prompt (entries s e)))
       \<and> Response_isDefault (responses s (e_response (entries s e)))"

text \<open>
  \<open>ChatEntry.path\<close>: the loop follows the parent links and appends, then the list is
  reversed. On a store whose parent links form a cycle the loop does not end.
\<close>

partial_function (option) path_loop :: "heap \<Rightarrow> nat option \<Rightarrow> nat list \<Rightarrow> nat list option" where
  "path_loop h entry acc =
     (case entry of
        None \<Rightarrow> Some acc
      | Some e \<Rightarrow> path_loop h (e_parent (h e)) (acc @ [e]))"

definition path :: "heap \<Rightarrow> nat \<Rightarrow> nat list option" where
  "path h e = map_option rev (path_loop h (Some e) [])"

text \<open>\<open>ChatEntry.messages\<close>: the loop over \<open>enumerate(path)\<close>.\<close>

fun messages_loop :: "state \<Rightarrow> nat \<Rightarrow> nat list \<Rightarrow> message list" where
  "messages_loop s i [] = []"
| "messages_loop s i (e # es) =
     (if i = 0 \<and> isDefaultContent s e then messages_loop s (Suc i) es
      else prompts s (e_prompt (entries s e))
           # (case r_choices (responses s (e_response (entries s e))) of
                [] \<Rightarrow> []
              | c # cs \<Rightarrow> [toMessage c])
           @ messages_loop s (Suc i) es)"

definition messages :: "state \<Rightarrow> nat \<Rightarrow> message list option" where
  "messages s e = map_option (messages_loop s 0) (path (entries s) e)"

subsection \<open>Chat\<close>

text \<open>\<open>Chat._updateCursorAttrs\<close>: the path is stored before \<open>index()\<close> can raise.\<close>

definition updateCursorAttrs :: "state \<Rightarrow> outcome option" where
  "updateCursorAttrs s =
     (case path (entries s) (c_cursor s) of
        None \<Rightarrow> None
      | Some p \<Rightarrow>
          (let s1 = s\<lparr>c_cursorPath := p\<rparr>
           in case ChatEntry_index (entries s1) (c_cursor s1) of
                Inl e \<Rightarrow> Some (Raise e s1)
              | Inr i \<Rightarrow> Some (Ok (s1\<lparr>c_cursorSiblingIndex := int i\<rparr>))))"

text \<open>
  \<open>Chat.clear\<close>. The arguments \<open>Message.Default()\<close> and \<open>Response.Default()\<close> are
  evaluated at the call, in this order, so the new entry has a prompt and a response of
  its own.
\<close>

definition clear :: "state \<Rightarrow> outcome option" where
  "clear s =
     (let s1 = s\<lparr>entries := (entries s)
                   (c_root s := (entries s (c_root s))\<lparr>e_children := []\<rparr>)\<rparr>;
          (m, sm) = Message_alloc Message_Default s1;
          (r, s2) = Response_new Response_Default sm;
          (a, s3) = ChatEntry_init m r (Some (c_root s2)) s2;
          s4 = s3\<lparr>c_current := a, c_previous := None\<rparr>
      in case path (entries s4) (c_current s4) of
           None \<Rightarrow> None
         | Some p \<Rightarrow>
             (let s5 = s4\<lparr>c_path := p, c_cursor := c_current s4, c_cursorSiblingIndex := 0\<rparr>
              in case path (entries s5) (c_cursor s5) of
                   None \<Rightarrow> None
                 | Some cp \<Rightarrow> Some (Ok (s5\<lparr>c_cursorPath := cp\<rparr>))))"

text \<open>\<open>Chat.__init__\<close>: \<open>ChatEntry.Default()\<close> makes the root, then \<open>clear()\<close>.\<close>

definition Chat_init :: "state \<Rightarrow> outcome option" where
  "Chat_init s =
     (let (m, sm) = Message_alloc Message_Default s;
          (r, s1) = Response_new Response_Default sm;
          (a, s2) = ChatEntry_init m r None s1
      in clear (s2\<lparr>c_root := a\<rparr>))"

definition isDefault :: "state \<Rightarrow> bool" where
  "isDefault s \<longleftrightarrow>
     e_parent (entries s (c_current s)) = Some (c_root s)
       \<and> length (e_children (entries s (c_current s))) = 0
       \<and> length (e_children (entries s (c_root s))) = 1
       \<and> Message_isDefault (prompts s (e_prompt (entries s (c_current s))))
       \<and> Response_isDefault (responses s (e_response (entries s (c_current s))))"

definition isEditable :: "state \<Rightarrow> bool" where
  "isEditable s \<longleftrightarrow> c_cursor s = c_current s"

text \<open>
  \<open>Chat.addSibling\<close> and \<open>Chat.addDescendant\<close>. The prompt argument is the address of
  the caller's \<open>Message\<close>. The response argument is \<open>None\<close> when the caller omits it (the
  method's own default object is used) and \<open>Some r\<close> for the response object at address
  \<open>r\<close>. \<open>addSibling\<close> writes \<open>content = ""\<close> through the prompt of the superseded
  \<open>current\<close> and \<open>choices = []\<close> through its response.
\<close>

definition addSibling :: "nat \<Rightarrow> nat option \<Rightarrow> state \<Rightarrow> outcome option" where
  "addSibling prompt resp s =
     (let r = (case resp of None \<Rightarrow> addSibling_default | Some x \<Rightarrow> x);
          s1 = s\<lparr>c_previous := Some (c_current s)\<rparr>;
          cur = c_current s1;
          pa = e_prompt (entries s1 cur);
          s2 = s1\<lparr>prompts := (prompts s1)(pa := (prompts s1 pa)\<lparr>m_content := []\<rparr>)\<rparr>;
          ra = e_response (entries s2 cur);
          s3 = s2\<lparr>responses := (responses s2)(ra := (responses s2 ra)\<lparr>r_choices := []\<rparr>)\<rparr>;
          (a, s4) = ChatEntry_init prompt r (e_parent (entries s3 (c_cursor s3))) s3;
          s5 = s4\<lparr>c_current := a\<rparr>
      in case path (entries s5) (c_current s5) of
           None \<Rightarrow> None
         | Some p \<Rightarrow> updateCursorAttrs (s5\<lparr>c_path := p, c_cursor := c_current s5\<rparr>))"

definition addDescendant :: "nat \<Rightarrow> nat option \<Rightarrow> state \<Rightarrow> outcome option" where
  "addDescendant prompt resp s =
     (let r = (case resp of None \<Rightarrow> addDescendant_default | Some x \<Rightarrow> x);
          s1 = s\<lparr>c_previous := Some (c_current s)\<rparr>;
          (a, s2) = ChatEntry_init prompt r (Some (c_cursor s1)) s1;
          s3 = s2\<lparr>c_current := a\<rparr>
      in case path (entries s3) (c_current s3) of
           None \<Rightarrow> None
         | Some p \<Rightarrow> updateCursorAttrs (s3\<lparr>c_path := p, c_cursor := c_current s3\<rparr>))"

definition canMoveUp :: "state \<Rightarrow> bool" where
  "canMoveUp s =
     (if e_parent (entries s (c_cursor s)) = None
         \<or> e_parent (entries s (c_cursor s)) = Some (c_root s)
      then False else True)"

definition canMoveDown :: "state \<Rightarrow> bool" where
  "canMoveDown s = (if length (e_children (entries s (c_cursor s))) = 0 then False else True)"

definition canMoveLeft :: "state \<Rightarrow> bool" where
  "canMoveLeft s = (if c_cursorSiblingIndex s = 0 then False else True)"

definition canMoveRight :: "state \<Rightarrow> bool" where
  "canMoveRight s =
     (case e_parent (entries s (c_cursor s)) of
        None \<Rightarrow> False
      | Some p \<Rightarrow>
          (if c_cursorSiblingIndex s = int (length (e_children (entries s p))) - 1
           then False else True))"

definition up :: "state \<Rightarrow> outcome option" where
  "up s =
     (case e_parent (entries s (c_cursor s)) of
        None \<Rightarrow> Some (Ok s)
      | Some p \<Rightarrow>
          (if p = c_root s then Some (Ok s)
           else updateCursorAttrs (s\<lparr>c_cursor := p\<rparr>)))"

text \<open>
  \<open>Chat.down\<close>: \<open>downIdx\<close> is \<open>-1\<close>, or the sibling index of the entry that follows
  the cursor on the cached path.
\<close>

definition downIdx :: "state \<Rightarrow> error + int" where
  "downIdx s =
     (if c_cursor s \<in> set (c_path s) \<and> length (e_children (entries s (c_cursor s))) > 1
      then (case list_index (c_path s) (c_cursor s) of
              Inl e \<Rightarrow> Inl e
            | Inr i \<Rightarrow>
                (case py_get (c_path s) (int i + 1) of
                   Inl e \<Rightarrow> Inl e
                 | Inr x \<Rightarrow>
                     (case ChatEntry_index (entries s) x of Inl e \<Rightarrow> Inl e | Inr j \<Rightarrow> Inr (int j))))
      else Inr (- 1))"

definition down :: "state \<Rightarrow> outcome option" where
  "down s =
     (if length (e_children (entries s (c_cursor s))) = 0 then Some (Ok s)
      else (case downIdx s of
              Inl e \<Rightarrow> Some (Raise e s)
            | Inr i \<Rightarrow>
                (case py_get (e_children (entries s (c_cursor s))) i of
                   Inl e \<Rightarrow> Some (Raise e s)
                 | Inr c \<Rightarrow> updateCursorAttrs (s\<lparr>c_cursor := c\<rparr>))))"

definition left :: "state \<Rightarrow> outcome option" where
  "left s =
     (if c_cursorSiblingIndex s = 0 then Some (Ok s)
      else (case e_parent (entries s (c_cursor s)) of
              None \<Rightarrow> Some (Raise AttributeError s)
            | Some p \<Rightarrow>
                (case py_get (e_children (entries s p)) (c_cursorSiblingIndex s - 1) of
                   Inl e \<Rightarrow> Some (Raise e s)
                 | Inr c \<Rightarrow> updateCursorAttrs (s\<lparr>c_cursor := c\<rparr>))))"

definition right :: "state \<Rightarrow> outcome option" where
  "right s =
     (case e_parent (entries s (c_cursor s)) of
        None \<Rightarrow> Some (Ok s)
      | Some p \<Rightarrow>
          (if c_cursorSiblingIndex s = int (length (e_children (entries s p))) - 1
           then Some (Ok s)
           else (case py_get (e_children (entries s p)) (c_cursorSiblingIndex s + 1) of
                   Inl e \<Rightarrow> Some (Raise e s)
                 | Inr c \<Rightarrow> updateCursorAttrs (s\<lparr>c_cursor := c\<rparr>))))"

definition top :: "state \<Rightarrow> outcome option" where
  "top s =
     (if e_parent (entries s (c_cursor s)) = None
         \<or> e_parent (entries s (c_cursor s)) = Some (c_root s)
      then Some (Ok s)
      else (case py_get (c_path s) 0 of
              Inl e \<Rightarrow> Some (Raise e s)
            | Inr x \<Rightarrow> updateCursorAttrs (s\<lparr>c_cursor := x\<rparr>)))"

definition bottom :: "state \<Rightarrow> outcome option" where
  "bottom s =
     (if length (e_children (entries s (c_cursor s))) = 0 then Some (Ok s)
      else updateCursorAttrs (s\<lparr>c_cursor := c_current s\<rparr>))"

definition returnToCurrent :: "state \<Rightarrow> outcome option" where
  "returnToCurrent s = Some (Ok (s\<lparr>c_cursor := c_current s\<rparr>))"

subsection \<open>The calls a client can make\<close>

text \<open>
  Besides the methods of \<open>Chat\<close>, the window assigns a new \<open>Response\<close> to
  \<open>chat.current.response\<close> and edits \<open>chat.current.prompt\<close>; a client can also build a
  \<open>Response\<close> and pass it to \<open>addSibling\<close> or \<open>addDescendant\<close>, and assign to
  \<open>chat.current.response.choices\<close>. The prompt of a call is a \<open>Message\<close> made for the
  call, as in \<open>addSibling(Message(role, prompt))\<close>, or a \<open>Message\<close> object that exists
  already, which may be the prompt of another entry.
\<close>

datatype prompt_arg = Fresh message | Existing nat

fun pass_prompt :: "prompt_arg \<Rightarrow> state \<Rightarrow> nat \<times> state" where
  "pass_prompt (Fresh m) s = Message_alloc m s"
| "pass_prompt (Existing a) s = (a, s)"

datatype chat_op =
    AddSibling prompt_arg "nat option"
  | AddDescendant prompt_arg "nat option"
  | Up | Down | Left | Right | Top | Bottom
  | ReturnToCurrent
  | Clear
  | NewMessage message
  | NewResponse response
  | SetCurrentResponse nat
  | SetCurrentChoices "choice list"
  | SetPromptContent string
  | SetPromptRole string

fun step :: "chat_op \<Rightarrow> state \<Rightarrow> outcome option" where
  "step (AddSibling p r) s = (let (a, s1) = pass_prompt p s in addSibling a r s1)"
| "step (AddDescendant p r) s = (let (a, s1) = pass_prompt p s in addDescendant a r s1)"
| "step Up s = up s"
| "step Down s = down s"
| "step Left s = left s"
| "step Right s = right s"
| "step Top s = top s"
| "step Bottom s = bottom s"
| "step ReturnToCurrent s = returnToCurrent s"
| "step Clear s = clear s"
| "step (NewMessage m) s = Some (Ok (snd (Message_alloc m s)))"
| "step (NewResponse r) s = Some (Ok (snd (Response_new r s)))"
| "step (SetCurrentResponse r) s =
     Some (Ok (s\<lparr>entries := (entries s)
                  (c_current s := (entries s (c_current s))\<lparr>e_response := r\<rparr>)\<rparr>))"
| "step (SetCurrentChoices cs) s =
     Some (Ok (s\<lparr>responses := (responses s)
                  (e_response (entries s (c_current s)) :=
                     (responses s (e_response (entries s (c_current s))))\<lparr>r_choices := cs\<rparr>)\<rparr>))"
| "step (SetPromptContent c) s =
     Some (Ok (s\<lparr>prompts := (prompts s)
                  (e_prompt (entries s (c_current s)) :=
                     (prompts s (e_prompt (entries s (c_current s))))\<lparr>m_content := c\<rparr>)\<rparr>))"
| "step (SetPromptRole c) s =
     Some (Ok (s\<lparr>prompts := (prompts s)
                  (e_prompt (entries s (c_current s)) :=
                     (prompts s (e_prompt (entries s (c_current s))))\<lparr>m_role := c\<rparr>)\<rparr>))"

section \<open>Invariants of the tree\<close>

text \<open>
  An entry is attached when the parent links above it end at an entry without parent
  and each entry on the way is among the children of its parent.
\<close>

inductive live :: "heap \<Rightarrow> nat \<Rightarrow> bool" for h :: heap where
  live_top: "e_parent (h a) = None \<Longrightarrow> live h a"
| live_child: "e_parent (h a) = Some p \<Longrightarrow> live h p \<Longrightarrow> a \<in> set (e_children (h p)) \<Longrightarrow> live h a"

text \<open>
  Among the \<open>n\<close> entries allocated so far a parent is older than its child, and every
  entry in a list of children is allocated and names that parent.
\<close>

definition heap_ok :: "heap \<Rightarrow> nat \<Rightarrow> bool" where
  "heap_ok h n \<longleftrightarrow>
     (\<forall>a<n. \<forall>p. e_parent (h a) = Some p \<longrightarrow> p < a)
       \<and> (\<forall>a<n. \<forall>x\<in>set (e_children (h a)). x < n \<and> e_parent (h x) = Some a)"

text \<open>Each entry of a path after the first is a child of the entry before it.\<close>

definition linked :: "heap \<Rightarrow> nat list \<Rightarrow> bool" where
  "linked h ps \<longleftrightarrow>
     (\<forall>i. Suc i < length ps \<longrightarrow>
        e_parent (h (ps ! Suc i)) = Some (ps ! i) \<and> ps ! Suc i \<in> set (e_children (h (ps ! i))))"

definition wf :: "state \<Rightarrow> bool" where
  "wf s \<longleftrightarrow>
     heap_ok (entries s) (next_entry s)
       \<and> c_root s < next_entry s
       \<and> e_parent (entries s (c_root s)) = None
       \<and> c_current s < next_entry s \<and> live (entries s) (c_current s)
       \<and> c_cursor s < next_entry s \<and> live (entries s) (c_cursor s)
       \<and> e_children (entries s (c_current s)) = []
       \<and> path (entries s) (c_current s) = Some (c_path s)"

subsection \<open>Reachable states\<close>

text \<open>
  A state is reachable when a sequence of calls leads to it from \<open>Chat()\<close>. The chat
  is made in the freshly loaded module, or later, in a store that holds the three
  default responses and entries linked as \<open>ChatEntry.__init__\<close> links them (the window
  makes a first \<open>Chat\<close> when its class is defined and uses a second one). A call that
  raises leaves the state the exception left. A prompt or a response passed by the
  client is one that exists.
\<close>

fun prompt_exists :: "state \<Rightarrow> prompt_arg \<Rightarrow> bool" where
  "prompt_exists s (Fresh m) = True"
| "prompt_exists s (Existing a) = (a < next_prompt s)"

fun response_exists :: "state \<Rightarrow> nat option \<Rightarrow> bool" where
  "response_exists s None = True"
| "response_exists s (Some r) = (r < next_response s)"

fun valid_op :: "state \<Rightarrow> chat_op \<Rightarrow> bool" where
  "valid_op s (AddSibling p r) = (prompt_exists s p \<and> response_exists s r)"
| "valid_op s (AddDescendant p r) = (prompt_exists s p \<and> response_exists s r)"
| "valid_op s (SetCurrentResponse r) = (r < next_response s)"
| "valid_op s x = True"

inductive reachable :: "state \<Rightarrow> bool" where
  init: "heap_ok (entries s0) (next_entry s0) \<Longrightarrow> 3 \<le> next_response s0 \<Longrightarrow>
         Chat_init s0 = Some r \<Longrightarrow> reachable (state_of r)"
| call: "reachable s \<Longrightarrow> valid_op s x \<Longrightarrow> step x s = Some r \<Longrightarrow> reachable (state_of r)"

text \<open>
  The entries after \<open>ChatEntry.__init__\<close> has made the entry at address \<open>a\<close>.
\<close>

definition alloc :: "heap \<Rightarrow> nat \<Rightarrow> nat \<Rightarrow> nat \<Rightarrow> nat option \<Rightarrow> heap" where
  "alloc h a p r par =
     (let h1 = h(a := \<lparr>e_prompt = p, e_response = r, e_parent = par, e_children = []\<rparr>)
      in case par of None \<Rightarrow> h1
         | Some q \<Rightarrow> h1(q := (h1 q)\<lparr>e_children := e_children (h1 q) @ [a]\<rparr>))"

section \<open>Sequences of calls\<close>

text \<open>
  \<open>addDescendants\<close> is a sequence of calls of \<open>addDescendant\<close>, each with its prompt (a
  \<open>Message\<close> made for the call or one that exists) and its response argument; an exception
  ends the sequence. \<open>calls\<close> is a sequence of
  calls by a client that goes on after an exception, from the state it left.
\<close>

fun addDescendants :: "(prompt_arg \<times> nat option) list \<Rightarrow> state \<Rightarrow> outcome option" where
  "addDescendants [] s = Some (Ok s)"
| "addDescendants (a # as) s =
     (let (p, s1) = pass_prompt (fst a) s
      in case addDescendant p (snd a) s1 of
           Some (Ok s') \<Rightarrow> addDescendants as s'
         | r \<Rightarrow> r)"

fun calls :: "chat_op list \<Rightarrow> state \<Rightarrow> state option" where
  "calls [] s = Some s"
| "calls (x # xs) s =
     (case step x s of None \<Rightarrow> None | Some r \<Rightarrow> calls xs (state_of r))"

text \<open>\<open>Chat()\<close> in the freshly loaded module, followed by the calls \<open>xs\<close>.\<close>

definition chat_after :: "chat_op list \<Rightarrow> state option" where
  "chat_after xs =
     (case Chat_init module_store of
        Some (Ok s) \<Rightarrow> calls xs s
      | _ \<Rightarrow> None)"

text \<open>
  The length of \<open>chat.current.path()\<close> after \<open>Chat()\<close>, made in the store \<open>s0\<close>, and
  the calls \<open>addDescendant\<close> with the arguments \<open>as\<close>.
\<close>

definition path_length_after :: "state \<Rightarrow> (prompt_arg \<times> nat option) list \<Rightarrow> nat option" where
  "path_length_after s0 as =
     (case Chat_init s0 of
        Some (Ok s1) \<Rightarrow>
          (case addDescendants as s1 of
             Some (Ok s) \<Rightarrow> map_option length (path (entries s) (c_current s))
           | _ \<Rightarrow> None)
      | _ \<Rightarrow> None)"

definition Message_new :: "string \<Rightarrow> string \<Rightarrow> message" where
  "Message_new role content =
     \<lparr>m_role = role, m_content = content, m_id = DEFAULT_ID, m_created = DEFAULT_TIME\<rparr>"

text \<open>
  What one entry contributes to \<open>messages()\<close>: its prompt, then the first choice of its
  response when there is one.
\<close>

definition entry_messages :: "state \<Rightarrow> nat \<Rightarrow> message list" where
  "entry_messages s e =
     prompts s (e_prompt (entries s e))
       # (case r_choices (responses s (e_response (entries s e))) of
            [] \<Rightarrow> []
          | c # cs \<Rightarrow> [toMessage c])"

text \<open>A response that holds the assistant's message \<open>hello\<close> as its only choice.\<close>

definition hello_response :: response where
  "hello_response =
     \<lparr>r_choices = [PlainMessage (Message_new ''assistant'' ''hello'')], r_created = PInt 0,
      r_id = ''r1'', r_model = ''gpt-4'', r_object = ''chat.completion'',
      r_usage = Usage_Default\<rparr>"

section \<open>Parsing API payloads\<close>

text \<open>
  \<open>Message.FromApiResponse\<close>. The result is \<open>Inr None\<close> where the source returns
  \<open>None\<close>, and \<open>Inl e\<close> where it raises. The content and the role that are found are
  handed to \<open>Message(...)\<close> as they are, whose setters check their types.
\<close>

definition Message_FromApiResponse :: "(string \<times> pyval) list \<Rightarrow> error + message option" where
  "Message_FromApiResponse apiResponse =
     (case (map_of apiResponse ''choices'', map_of apiResponse ''id'',
            map_of apiResponse ''created'') of
        (Some choices, Some ident, Some created) \<Rightarrow>
          (if \<not> is_str ident \<or> \<not> is_list choices \<or> \<not> is_int created then Inr None
           else (case choices of
                   PList (choice # rest) \<Rightarrow>
                     (case choice of
                        PDict c \<Rightarrow>
                          (let isDelta = (map_of c ''delta'' \<noteq> None)
                           in case (if isDelta then map_of c ''delta'' else map_of c ''message'') of
                                None \<Rightarrow> Inr None
                              | Some (PDict m) \<Rightarrow>
                                  (case map_of m ''content'' of
                                     None \<Rightarrow> Inr None
                                   | Some content \<Rightarrow>
                                       (case (if isDelta then Some (PStr ''assistant'')
                                              else map_of m ''role'') of
                                          None \<Rightarrow> Inr None
                                        | Some role \<Rightarrow>
                                            (case Message_init role content ident created of
                                               Inl e \<Rightarrow> Inl e
                                             | Inr msg \<Rightarrow> Inr (Some msg))))
                              | Some other \<Rightarrow> Inr None)
                      | _ \<Rightarrow> Inr None)
                 | _ \<Rightarrow> Inr None))
      | _ \<Rightarrow> Inr None)"

text \<open>
  \<open>PartialMessage.FromApiResponse\<close> reads one streamed chunk: the same checks, with
  \<open>delta\<close> required, and the same constructor. \<open>PartialMessage.FromApiResponses\<close>
  links the fragments of the chunks and returns the first one.
\<close>

definition PartialMessage_FromApiResponse :: "(string \<times> pyval) list \<Rightarrow> error + message option" where
  "PartialMessage_FromApiResponse apiResponse =
     (case (map_of apiResponse ''choices'', map_of apiResponse ''id'',
            map_of apiResponse ''created'') of
        (Some choices, Some ident, Some created) \<Rightarrow>
          (if \<not> is_str ident \<or> \<not> is_list choices \<or> \<not> is_int created then Inr None
           else (case choices of
                   PList (choice # rest) \<Rightarrow>
                     (case choice of
                        PDict c \<Rightarrow>
                          (case map_of c ''delta'' of
                             Some (PDict m) \<Rightarrow>
                               (case map_of m ''content'' of
                                  None \<Rightarrow> Inr None
                                | Some content \<Rightarrow>
                                    (case Message_init (PStr ''assistant'') content ident created of
                                       Inl e \<Rightarrow> Inl e
                                     | Inr msg \<Rightarrow> Inr (Some msg)))
                           | _ \<Rightarrow> Inr None)
                      | _ \<Rightarrow> Inr None)
                 | _ \<Rightarrow> Inr None))
      | _ \<Rightarrow> Inr None)"

fun fragments_loop :: "(string \<times> pyval) list list \<Rightarrow> message list \<Rightarrow> error + message list option" where
  "fragments_loop [] acc = Inr (Some acc)"
| "fragments_loop (response # rest) acc =
     (case PartialMessage_FromApiResponse response of
        Inl e \<Rightarrow> Inl e
      | Inr None \<Rightarrow> Inr None
      | Inr (Some msg) \<Rightarrow> fragments_loop rest (acc @ [msg]))"

definition PartialMessage_FromApiResponses :: "(string \<times> pyval) list list \<Rightarrow> error + choice option" where
  "PartialMessage_FromApiResponses apiResponses =
     (if length apiResponses = 0 then Inr None
      else (case fragments_loop apiResponses [] of
              Inl e \<Rightarrow> Inl e
            | Inr None \<Rightarrow> Inr None
            | Inr (Some []) \<Rightarrow> Inr None
            | Inr (Some (first # rest)) \<Rightarrow>
                Inr (Some (PartialMessage first (map m_content (first # rest))))))"

definition Usage_FromApiResponse :: "(string \<times> pyval) list \<Rightarrow> usage option" where
  "Usage_FromApiResponse apiResponse =
     (case (map_of apiResponse ''prompt_tokens'', map_of apiResponse ''completion_tokens'',
            map_of apiResponse ''total_tokens'') of
        (Some p, Some c, Some t) \<Rightarrow>
          (if \<not> is_int p \<or> \<not> is_int c \<or> \<not> is_int t then None
           else Some \<lparr>prompt_tokens = p, completion_tokens = c, total_tokens = t\<rparr>)
      | _ \<Rightarrow> None)"

text \<open>
  \<open>Response.FromApiResponse\<close>. The inner \<open>parseResponse(resp)\<close> reads the outer
  \<open>apiResponse\<close>, not its argument. For a \<open>dict\<close> the two are the same; each turn of the
  loop over the choices parses the whole response again, which gives the message of the
  first choice. For a \<open>list\<close>, \<open>"choices" in apiResponse\<close> looks for the string among
  the elements of the list, and \<open>apiResponse["choices"]\<close> raises \<open>TypeError\<close>.
\<close>

fun choices_loop :: "(string \<times> pyval) list \<Rightarrow> pyval list \<Rightarrow> choice list \<Rightarrow> error + choice list option" where
  "choices_loop apiResponse [] acc = Inr (Some acc)"
| "choices_loop apiResponse (choice # rest) acc =
     (case Message_FromApiResponse apiResponse of
        Inl e \<Rightarrow> Inl e
      | Inr None \<Rightarrow> Inr None
      | Inr (Some msg) \<Rightarrow> choices_loop apiResponse rest (acc @ [PlainMessage msg]))"

definition parseResponse_dict :: "(string \<times> pyval) list \<Rightarrow> error + response option" where
  "parseResponse_dict apiResponse =
     (case (map_of apiResponse ''choices'', map_of apiResponse ''id'',
            map_of apiResponse ''created'', map_of apiResponse ''model'',
            map_of apiResponse ''object'') of
        (Some choicesApi, Some idApi, Some createdApi, Some modelApi, Some objectApi) \<Rightarrow>
          (let usageApi = (case map_of apiResponse ''usage'' of None \<Rightarrow> PNone | Some u \<Rightarrow> u)
           in case (choicesApi, idApi, modelApi, objectApi) of
                (PList cs, PStr i, PStr m, PStr ob) \<Rightarrow>
                  (if \<not> is_int createdApi then Inr None
                   else if truthy usageApi \<and> \<not> is_dict usageApi then Inr None
                   else (case choices_loop apiResponse cs [] of
                           Inl e \<Rightarrow> Inl e
                         | Inr None \<Rightarrow> Inr None
                         | Inr (Some choices) \<Rightarrow>
                             Inr (Some \<lparr>r_choices = choices, r_created = createdApi, r_id = i,
                                        r_model = m, r_object = ob,
                                        r_usage =
                                          (if truthy usageApi
                                           then (case usageApi of
                                                   PDict u \<Rightarrow>
                                                     (case Usage_FromApiResponse u of
                                                        None \<Rightarrow> Usage_Default
                                                      | Some us \<Rightarrow> us)
                                                 | _ \<Rightarrow> Usage_Default)
                                           else Usage_Default)\<rparr>)))
              | _ \<Rightarrow> Inr None)
      | _ \<Rightarrow> Inr None)"

definition parseResponse_list :: "pyval list \<Rightarrow> error + response option" where
  "parseResponse_list apiResponse =
     (if PStr ''choices'' \<notin> set apiResponse \<or> PStr ''id'' \<notin> set apiResponse
         \<or> PStr ''created'' \<notin> set apiResponse \<or> PStr ''model'' \<notin> set apiResponse
         \<or> PStr ''object'' \<notin> set apiResponse
      then Inr None
      else Inl TypeError)"

definition Response_FromApiResponse :: "pyval \<Rightarrow> error + response option" where
  "Response_FromApiResponse apiResponse =
     (case apiResponse of
        PDict d \<Rightarrow> parseResponse_dict d
      | PList xs \<Rightarrow> (if length xs = 0 then Inr None else parseResponse_list xs)
      | _ \<Rightarrow> Inr None)"

definition toApiResponse :: "response \<Rightarrow> pyval" where
  "toApiResponse r =
     PDict ([(''choices'', PList (map toApiMessage (r_choices r))),
             (''created'', r_created r),
             (''id'', PStr (r_id r)),
             (''model'', PStr (r_model r)),
             (''object'', PStr (r_object r))]
            @ (if \<not> Usage_isDefault (r_usage r) then [(''usage'', toApiUsage (r_usage r))]
               else []))"

text \<open>Reading a payload: a field of an object, the content of the first choice.\<close>

fun api_field :: "pyval \<Rightarrow> string \<Rightarrow> pyval option" where
  "api_field (PDict d) k = map_of d k"
| "api_field v k = None"

definition api_first_choice :: "pyval \<Rightarrow> pyval option" where
  "api_first_choice r =
     (case api_field r ''choices'' of
        Some (PList (c # cs)) \<Rightarrow> Some c
      | _ \<Rightarrow> None)"

text \<open>
  In a response of the API the content of a choice is the field \<open>content\<close> of its
  \<open>delta\<close>, or of its \<open>message\<close> when it has no \<open>delta\<close>; in the serialized form it is
  the field \<open>content\<close> of the choice itself.
\<close>

definition api_first_content :: "pyval \<Rightarrow> pyval option" where
  "api_first_content r =
     (case api_first_choice r of
        None \<Rightarrow> None
      | Some c \<Rightarrow>
          (case (if api_field c ''delta'' \<noteq> None then api_field c ''delta''
                 else api_field c ''message'') of
             None \<Rightarrow> None
           | Some m \<Rightarrow> api_field m ''content''))"

definition serialized_first_content :: "pyval \<Rightarrow> pyval option" where
  "serialized_first_content r =
     (case api_first_choice r of None \<Rightarrow> None | Some c \<Rightarrow> api_field c ''content'')"

text \<open>The three token counts of the \<open>usage\<close> of a payload, when it has them as integers.\<close>

definition api_usage_counts :: "pyval \<Rightarrow> (pyval \<times> pyval \<times> pyval) option" where
  "api_usage_counts r =
     (case api_field r ''usage'' of
        Some (PDict u) \<Rightarrow>
          (case (map_of u ''prompt_tokens'', map_of u ''completion_tokens'',
                 map_of u ''total_tokens'') of
             (Some p, Some c, Some t) \<Rightarrow>
               (if is_int p \<and> is_int c \<and> is_int t then Some (p, c, t) else None)
           | _ \<Rightarrow> None)
      | _ \<Rightarrow> None)"

definition sample_api_response :: pyval where
  "sample_api_response =
     PDict [(''id'', PStr ''chatcmpl-1''), (''object'', PStr ''chat.completion''),
            (''created'', PInt 1700000000), (''model'', PStr ''gpt-4''),
            (''choices'',
               PList [PDict [(''index'', PInt 0),
                             (''message'', PDict [(''role'', PStr ''assistant''),
                                                  (''content'', PStr ''hello'')]),
                             (''finish_reason'', PStr ''stop'')]]),
            (''usage'', PDict [(''prompt_tokens'', PInt 9), (''completion_tokens'', PInt 2),
                               (''total_tokens'', PInt 11)])]"

section \<open>ChatCompletionParams\<close>

text \<open>
  The attributes keep the values as they were assigned: a setter of an optional
  attribute checks the type only of a value that is true, so \<open>None\<close>, \<open>0\<close> or an empty
  string pass. \<open>x < c\<close> and \<open>x > c\<close> on a \<open>float\<close> and an integer constant, and \<open>len\<close>,
  are evaluated only behind the \<open>isinstance\<close> test of the same condition.
\<close>

record completion_params =
  p_apiKey :: string
  p_model :: string
  p_messages :: pyval
  p_temperature :: pyval
  p_max_tokens :: pyval
  p_top_p :: pyval
  p_n :: pyval
  p_frequency_penalty :: pyval
  p_presence_penalty :: pyval
  p_stop :: pyval
  p_stream :: bool
  p_logit_bias :: pyval
  p_user :: pyval

record init_args =
  a_model :: pyval
  a_messages :: pyval
  a_temperature :: pyval
  a_max_tokens :: pyval
  a_top_p :: pyval
  a_n :: pyval
  a_frequency_penalty :: pyval
  a_presence_penalty :: pyval
  a_stop :: pyval
  a_stream :: pyval
  a_logit_bias :: pyval
  a_user :: pyval
  a_apiKey :: pyval

text \<open>The arguments of \<open>ChatCompletionParams(model)\<close>, all others at their defaults.\<close>

definition default_args :: "pyval \<Rightarrow> init_args" where
  "default_args model =
     \<lparr>a_model = model, a_messages = PNone, a_temperature = PNone, a_max_tokens = PNone,
      a_top_p = PNone, a_n = PNone, a_frequency_penalty = PNone, a_presence_penalty = PNone,
      a_stop = PNone, a_stream = PBool True, a_logit_bias = PNone, a_user = PNone,
      a_apiKey = PStr []\<rparr>"

fun float_lt :: "pyfloat \<Rightarrow> real \<Rightarrow> bool" where
  "float_lt (Finite r) c = (r < c)"
| "float_lt NegInf c = True"
| "float_lt PosInf c = False"
| "float_lt NaN c = False"

fun float_gt :: "pyfloat \<Rightarrow> real \<Rightarrow> bool" where
  "float_gt (Finite r) c = (r > c)"
| "float_gt PosInf c = True"
| "float_gt NegInf c = False"
| "float_gt NaN c = False"

text \<open>\<open>not isinstance(v, float) or v < lo or v > hi\<close>, and the same for an \<open>int\<close>.\<close>

fun not_float_in :: "pyval \<Rightarrow> real \<Rightarrow> real \<Rightarrow> bool" where
  "not_float_in (PFloat f) lo hi = (float_lt f lo \<or> float_gt f hi)"
| "not_float_in v lo hi = True"

fun not_int_in :: "pyval \<Rightarrow> int \<Rightarrow> int \<Rightarrow> bool" where
  "not_int_in (PInt i) lo hi = (i < lo \<or> i > hi)"
| "not_int_in (PBool b) lo hi = ((if b then 1 else 0) < lo \<or> (if b then 1 else 0) > hi)"
| "not_int_in v lo hi = True"

text \<open>\<open>not isinstance(v, list) or len(v) > k\<close>, and the same for a \<open>str\<close>.\<close>

fun not_list_upto :: "pyval \<Rightarrow> nat \<Rightarrow> bool" where
  "not_list_upto (PList xs) k = (length xs > k)"
| "not_list_upto v k = True"

fun not_str_upto :: "pyval \<Rightarrow> nat \<Rightarrow> bool" where
  "not_str_upto (PStr s) k = (length s > k)"
| "not_str_upto v k = True"

fun all_str :: "pyval \<Rightarrow> bool" where
  "all_str (PList xs) = list_all is_str xs"
| "all_str v = False"

fun all_Message :: "pyval \<Rightarrow> bool" where
  "all_Message (PList xs) =
     list_all (\<lambda>x. x = PObj ''Message'' \<or> x = PObj ''PartialMessage'') xs"
| "all_Message v = False"

text \<open>The property setters.\<close>

definition set_apiKey :: "pyval \<Rightarrow> completion_params \<Rightarrow> error + completion_params" where
  "set_apiKey v p = (case v of PStr s \<Rightarrow> Inr (p\<lparr>p_apiKey := s\<rparr>) | _ \<Rightarrow> Inl TypeError)"

definition set_model :: "pyval \<Rightarrow> completion_params \<Rightarrow> error + completion_params" where
  "set_model v p = (case v of PStr s \<Rightarrow> Inr (p\<lparr>p_model := s\<rparr>) | _ \<Rightarrow> Inl TypeError)"

definition set_messages :: "pyval \<Rightarrow> completion_params \<Rightarrow> error + completion_params" where
  "set_messages v p =
     (if \<not> is_list v then Inl TypeError
      else if \<not> all_Message v then Inl TypeError
      else Inr (p\<lparr>p_messages := v\<rparr>))"

definition set_temperature :: "pyval \<Rightarrow> completion_params \<Rightarrow> error + completion_params" where
  "set_temperature v p =
     (if truthy v \<and> \<not> is_float v then Inl TypeError else Inr (p\<lparr>p_temperature := v\<rparr>))"

definition set_max_tokens :: "pyval \<Rightarrow> completion_params \<Rightarrow> error + completion_params" where
  "set_max_tokens v p =
     (if truthy v \<and> \<not> is_int v then Inl TypeError else Inr (p\<lparr>p_max_tokens := v\<rparr>))"

definition set_top_p :: "pyval \<Rightarrow> completion_params \<Rightarrow> error + completion_params" where
  "set_top_p v p =
     (if truthy v \<and> \<not> is_float v then Inl TypeError else Inr (p\<lparr>p_top_p := v\<rparr>))"

definition set_n :: "pyval \<Rightarrow> completion_params \<Rightarrow> error + completion_params" where
  "set_n v p = (if truthy v \<and> \<not> is_int v then Inl TypeError else Inr (p\<lparr>p_n := v\<rparr>))"

definition set_frequency_penalty :: "pyval \<Rightarrow> completion_params \<Rightarrow> error + completion_params" where
  "set_frequency_penalty v p =
     (if truthy v \<and> \<not> is_float v then Inl TypeError
      else Inr (p\<lparr>p_frequency_penalty := v\<rparr>))"

definition set_presence_penalty :: "pyval \<Rightarrow> completion_params \<Rightarrow> error + completion_params" where
  "set_presence_penalty v p =
     (if truthy v \<and> \<not> is_float v then Inl TypeError
      else Inr (p\<lparr>p_presence_penalty := v\<rparr>))"

definition set_stop :: "pyval \<Rightarrow> completion_params \<Rightarrow> error + completion_params" where
  "set_stop v p =
     (if truthy v \<and> \<not> is_list v then Inl TypeError
      else if truthy v \<and> \<not> all_str v then Inl TypeError
      else Inr (p\<lparr>p_stop := v\<rparr>))"

definition set_stream :: "pyval \<Rightarrow> completion_params \<Rightarrow> error + completion_params" where
  "set_stream v p = (case v of PBool b \<Rightarrow> Inr (p\<lparr>p_stream := b\<rparr>) | _ \<Rightarrow> Inl TypeError)"

definition set_user :: "pyval \<Rightarrow> completion_params \<Rightarrow> error + completion_params" where
  "set_user v p =
     (if truthy v \<and> \<not> is_str v then Inl TypeError else Inr (p\<lparr>p_user := v\<rparr>))"

text \<open>An exception of one statement ends the sequence.\<close>

definition and_then :: "error + 'a \<Rightarrow> ('a \<Rightarrow> error + 'b) \<Rightarrow> error + 'b" where
  "and_then r f = (case r of Inl e \<Rightarrow> Inl e | Inr x \<Rightarrow> f x)"

text \<open>The object before \<open>__init__\<close> has assigned its attributes.\<close>

definition blank_params :: completion_params where
  "blank_params =
     \<lparr>p_apiKey = [], p_model = [], p_messages = PList [], p_temperature = PNone,
      p_max_tokens = PNone, p_top_p = PNone, p_n = PNone, p_frequency_penalty = PNone,
      p_presence_penalty = PNone, p_stop = PNone, p_stream = True, p_logit_bias = PNone,
      p_user = PNone\<rparr>"

text \<open>\<open>ChatCompletionParams.__init__\<close>: the checks in their order, then the assignments.\<close>

definition ChatCompletionParams_init :: "init_args \<Rightarrow> error + completion_params" where
  "ChatCompletionParams_init a =
     (let messages = (if a_messages a = PNone then PList [] else a_messages a)
      in if truthy (a_temperature a) \<and> not_float_in (a_temperature a) 0 2 then Inl ValueError
      else if truthy (a_max_tokens a) \<and> \<not> is_int (a_max_tokens a) then Inl TypeError
      else if truthy (a_top_p a) \<and> not_float_in (a_top_p a) 0 1 then Inl ValueError
      else if truthy (a_n a) \<and> not_int_in (a_n a) 1 10 then Inl ValueError
      else if truthy (a_frequency_penalty a) \<and> not_float_in (a_frequency_penalty a) (- 2) 2
        then Inl ValueError
      else if truthy (a_presence_penalty a) \<and> not_float_in (a_presence_penalty a) (- 2) 2
        then Inl ValueError
      else if truthy (a_stop a) \<and> not_list_upto (a_stop a) 4 then Inl ValueError
      else if truthy (a_logit_bias a) \<and> \<not> is_list (a_logit_bias a) then Inl ValueError
      else if truthy (a_user a) \<and> not_str_upto (a_user a) 256 then Inl ValueError
      else if \<not> is_str (a_apiKey a) then Inl TypeError
      else
        and_then (set_apiKey (a_apiKey a) blank_params) (\<lambda>p.
        and_then (set_model (a_model a) p) (\<lambda>p.
        and_then (set_messages messages p) (\<lambda>p.
        and_then (set_temperature (a_temperature a) p) (\<lambda>p.
        and_then (set_max_tokens (a_max_tokens a) p) (\<lambda>p.
        and_then (set_top_p (a_top_p a) p) (\<lambda>p.
        and_then (set_n (a_n a) p) (\<lambda>p.
        and_then (set_frequency_penalty (a_frequency_penalty a) p) (\<lambda>p.
        and_then (set_presence_penalty (a_presence_penalty a) p) (\<lambda>p.
        and_then (set_stop (a_stop a) p) (\<lambda>p.
        and_then (set_stream (a_stream a) p) (\<lambda>p.
        set_user (a_user a) (p\<lparr>p_logit_bias := a_logit_bias a\<rparr>)))))))))))))"

text \<open>
  The documented ranges: a value of the attribute's type lies outside. For \<open>n\<close> the
  value \<open>0\<close> is left aside.
\<close>

fun float_outside :: "pyval \<Rightarrow> real \<Rightarrow> real \<Rightarrow> bool" where
  "float_outside (PFloat f) lo hi = (float_lt f lo \<or> float_gt f hi)"
| "float_outside v lo hi = False"

fun int_outside :: "pyval \<Rightarrow> int \<Rightarrow> int \<Rightarrow> bool" where
  "int_outside (PInt i) lo hi = (i \<noteq> 0 \<and> (i < lo \<or> hi < i))"
| "int_outside v lo hi = False"

fun list_longer :: "pyval \<Rightarrow> nat \<Rightarrow> bool" where
  "list_longer (PList xs) k = (k < length xs)"
| "list_longer v k = False"

fun str_longer :: "pyval \<Rightarrow> nat \<Rightarrow> bool" where
  "str_longer (PStr s) k = (k < length s)"
| "str_longer v k = False"

definition out_of_range :: "init_args \<Rightarrow> bool" where
  "out_of_range a \<longleftrightarrow>
     float_outside (a_temperature a) 0 2 \<or> float_outside (a_top_p a) 0 1
       \<or> int_outside (a_n a) 1 10
       \<or> float_outside (a_frequency_penalty a) (- 2) 2
       \<or> float_outside (a_presence_penalty a) (- 2) 2
       \<or> list_longer (a_stop a) 4 \<or> str_longer (a_user a) 256"

section \<open>Well-formed payloads\<close>

text \<open>
  The payloads that \<open>Response.FromApiResponse\<close> parses. The first choice holds a
  \<open>delta\<close> object with a string \<open>content\<close>, or, having no \<open>delta\<close>, a \<open>message\<close>
  object with a string \<open>content\<close> and a string \<open>role\<close>; \<open>id\<close>, \<open>model\<close> and \<open>object\<close>
  are strings and \<open>created\<close> is an integer; a \<open>usage\<close>, when there is one, is an object
  or a value that is not true (\<open>None\<close>).
\<close>

definition has_str :: "(string \<times> pyval) list \<Rightarrow> string \<Rightarrow> bool" where
  "has_str d k = (case map_of d k of Some (PStr s) \<Rightarrow> True | _ \<Rightarrow> False)"

definition choice_parses :: "pyval \<Rightarrow> bool" where
  "choice_parses c =
     (case c of
        PDict cd \<Rightarrow>
          (case map_of cd ''delta'' of
             Some dl \<Rightarrow> (case dl of PDict m \<Rightarrow> has_str m ''content'' | _ \<Rightarrow> False)
           | None \<Rightarrow>
               (case map_of cd ''message'' of
                  Some (PDict m) \<Rightarrow> has_str m ''content'' \<and> has_str m ''role''
                | _ \<Rightarrow> False))
      | _ \<Rightarrow> False)"

definition well_formed_response :: "pyval \<Rightarrow> bool" where
  "well_formed_response r =
     (case r of
        PDict d \<Rightarrow>
          (case map_of d ''choices'' of
             Some (PList (c # cs)) \<Rightarrow>
               choice_parses c \<and> has_str d ''id''
                 \<and> (case map_of d ''created'' of Some cr \<Rightarrow> is_int cr | None \<Rightarrow> False)
                 \<and> has_str d ''model'' \<and> has_str d ''object''
                 \<and> (case map_of d ''usage'' of
                       None \<Rightarrow> True
                     | Some u \<Rightarrow> is_dict u \<or> \<not> truthy u)
           | _ \<Rightarrow> False)
      | _ \<Rightarrow> False)"

text \<open>
  The required fields as the specification lists them for a single response:
  \<open>choices\<close> (a non-empty sequence), \<open>id\<close> (a string), \<open>created\<close> (an integer); each
  choice requires a \<open>message\<close> or \<open>delta\<close> object containing \<open>content\<close> (a string), and
  a \<open>message\<close> requires \<open>role\<close>.
\<close>

definition spec_choice :: "pyval \<Rightarrow> bool" where
  "spec_choice c =
     (case c of
        PDict cd \<Rightarrow>
          (case map_of cd ''message'' of
             Some (PDict m) \<Rightarrow> has_str m ''content'' \<and> map_of m ''role'' \<noteq> None
           | _ \<Rightarrow> False)
          \<or> (case map_of cd ''delta'' of
                Some (PDict m) \<Rightarrow> has_str m ''content''
              | _ \<Rightarrow> False)
      | _ \<Rightarrow> False)"

definition spec_valid_response :: "pyval \<Rightarrow> bool" where
  "spec_valid_response r =
     (case r of
        PDict d \<Rightarrow>
          (case map_of d ''choices'' of
             Some (PList (c # cs)) \<Rightarrow> list_all spec_choice (c # cs)
           | _ \<Rightarrow> False)
          \<and> has_str d ''id''
          \<and> (case map_of d ''created'' of Some cr \<Rightarrow> is_int cr | None \<Rightarrow> False)
      | _ \<Rightarrow> False)"

text \<open>
  A response with every field the specification requires, without \<open>model\<close> and
  \<open>object\<close>; and a complete response whose \<open>usage\<close> lacks the total.
\<close>

definition response_without_model :: pyval where
  "response_without_model =
     PDict [(''id'', PStr ''chatcmpl-1''), (''created'', PInt 1700000000),
            (''choices'',
               PList [PDict [(''message'', PDict [(''role'', PStr ''assistant''),
                                                  (''content'', PStr ''hello'')])]])]"

definition response_partial_usage :: pyval where
  "response_partial_usage =
     PDict [(''id'', PStr ''chatcmpl-1''), (''object'', PStr ''chat.completion''),
            (''created'', PInt 1700000000), (''model'', PStr ''gpt-4''),
            (''choices'',
               PList [PDict [(''message'', PDict [(''role'', PStr ''assistant''),
                                                  (''content'', PStr ''hello'')])]]),
            (''usage'', PDict [(''prompt_tokens'', PInt 9), (''completion_tokens'', PInt 2)])]"

section \<open>Paths of attached entries\<close>

lemma path_loop_acc:
  "live h a \<Longrightarrow> path_loop h (Some a) acc = map_option ((@) acc) (path_loop h (Some a) [])"
proof (induction arbitrary: acc rule: live.induct)
  case (live_top a)
  then show ?case by (simp add: path_loop.simps)
next
  case (live_child a p)
  have "path_loop h (Some a) acc = path_loop h (Some p) (acc @ [a])"
    using live_child.hyps(1) by (subst path_loop.simps) simp
  also have "\<dots> = map_option ((@) (acc @ [a])) (path_loop h (Some p) [])"
    by (rule live_child.IH)
  finally have l: "path_loop h (Some a) acc = map_option ((@) (acc @ [a])) (path_loop h (Some p) [])" .
  have "path_loop h (Some a) [] = path_loop h (Some p) [a]"
    using live_child.hyps(1) by (subst path_loop.simps) simp
  also have "\<dots> = map_option ((@) [a]) (path_loop h (Some p) [])"
    by (rule live_child.IH)
  finally have r: "path_loop h (Some a) [] = map_option ((@) [a]) (path_loop h (Some p) [])" .
  show ?case unfolding l r by (cases "path_loop h (Some p) []") simp_all
qed

lemma path_top: "e_parent (h a) = None \<Longrightarrow> path h a = Some [a]"
  by (simp add: path_def path_loop.simps)

lemma path_child:
  assumes "e_parent (h a) = Some p" "live h p"
  shows "path h a = map_option (\<lambda>pp. pp @ [a]) (path h p)"
proof -
  have "path_loop h (Some a) [] = path_loop h (Some p) [a]"
    using assms(1) by (subst path_loop.simps) simp
  also have "\<dots> = map_option ((@) [a]) (path_loop h (Some p) [])"
    by (rule path_loop_acc [OF assms(2)])
  finally show ?thesis
    by (cases "path_loop h (Some p) []") (simp_all add: path_def)
qed

lemma linked_snoc:
  assumes "linked h pp" "pp \<noteq> []" "e_parent (h a) = Some (last pp)" "a \<in> set (e_children (h (last pp)))"
  shows "linked h (pp @ [a])"
  unfolding linked_def
proof (intro allI impI)
  fix i assume i: "Suc i < length (pp @ [a])"
  show "e_parent (h ((pp @ [a]) ! Suc i)) = Some ((pp @ [a]) ! i) \<and>
        (pp @ [a]) ! Suc i \<in> set (e_children (h ((pp @ [a]) ! i)))"
  proof (cases "Suc i < length pp")
    case True
    then show ?thesis using assms(1) by (simp add: linked_def nth_append)
  next
    case False
    with i have e: "Suc i = length pp" by simp
    then have i': "i = length pp - 1" by simp
    have "(pp @ [a]) ! Suc i = a" "(pp @ [a]) ! i = last pp"
      using assms(2) e by (simp_all add: nth_append last_conv_nth i')
    then show ?thesis using assms(3,4) by simp
  qed
qed

lemma live_path:
  "live h a \<Longrightarrow> \<exists>ps. path h a = Some ps \<and> ps \<noteq> [] \<and> last ps = a \<and> linked h ps
      \<and> (\<forall>x\<in>set ps. live h x) \<and> e_parent (h (hd ps)) = None"
proof (induction rule: live.induct)
  case (live_top a)
  then show ?case by (simp add: path_top linked_def live.live_top)
next
  case (live_child a p)
  then obtain pp where pp: "path h p = Some pp" "pp \<noteq> []" "last pp = p" "linked h pp"
     "\<forall>x\<in>set pp. live h x" "e_parent (h (hd pp)) = None" by blast
  have "path h a = Some (pp @ [a])"
    using path_child [OF live_child.hyps(1,2)] pp(1) by simp
  moreover have "linked h (pp @ [a])"
    using linked_snoc pp live_child.hyps by simp
  moreover have "live h a" using live_child.hyps by (rule live.live_child)
  ultimately show ?case using pp by auto
qed

lemma live_parent: "live h a \<Longrightarrow> e_parent (h a) = Some p \<Longrightarrow> live h p \<and> a \<in> set (e_children (h p))"
  by (erule live.cases) auto

lemma live_frame:
  assumes "live h a" "a < n"
    and old: "\<forall>y<n. \<forall>p. e_parent (h y) = Some p \<longrightarrow> p < y"
    and same: "\<forall>y<n. e_parent (h' y) = e_parent (h y) \<and> set (e_children (h y)) \<subseteq> set (e_children (h' y))"
  shows "live h' a \<and> path h' a = path h a"
  using assms(1,2)
proof (induction rule: live.induct)
  case (live_top a)
  then have "e_parent (h' a) = None" using same by simp
  then show ?case using live_top by (simp add: path_top live.live_top)
next
  case (live_child a p)
  have pa: "p < a" using old live_child by blast
  then have pn: "p < n" using live_child.prems by simp
  have ih: "live h' p" "path h' p = path h p" using live_child.IH pn by simp_all
  have par: "e_parent (h' a) = Some p" using same live_child by simp
  have mem: "a \<in> set (e_children (h' p))" using same pn live_child.hyps(3) by blast
  have "live h' a" using par ih(1) mem by (rule live.live_child)
  moreover have "path h' a = path h a"
    using path_child [OF par ih(1)] path_child [OF live_child.hyps(1,2)] ih(2) by simp
  ultimately show ?case by simp
qed

lemma live_below:
  assumes "live h a" "a < n" and old: "\<forall>y<n. \<forall>p. e_parent (h y) = Some p \<longrightarrow> p < y"
    and "path h a = Some ps"
  shows "\<forall>x\<in>set ps. x < n"
  using assms(1,2,4)
proof (induction arbitrary: ps rule: live.induct)
  case (live_top a)
  then show ?case by (auto simp: path_top)
next
  case (live_child a p)
  have pn: "p < n" using old live_child by (meson less_trans)
  obtain pp where pp: "path h p = Some pp"
    using live_path [OF live_child.hyps(2)] by blast
  then have "ps = pp @ [a]"
    using path_child [OF live_child.hyps(1,2)] live_child.prems by simp
  then show ?case using live_child.IH [OF pn pp] live_child.prems by auto
qed

lemma ChatEntry_init_alloc:
  "ChatEntry_init p r par s =
     (next_entry s, s\<lparr>entries := alloc (entries s) (next_entry s) p r par, next_entry := Suc (next_entry s)\<rparr>)"
  by (cases par) (simp_all add: ChatEntry_init_def alloc_def Let_def)

lemma alloc_parent:
  "par \<noteq> Some n \<Longrightarrow> e_parent (alloc h n p r par x) = (if x = n then par else e_parent (h x))"
  by (cases par) (auto simp: alloc_def Let_def)

lemma alloc_children:
  "par \<noteq> Some n \<Longrightarrow> e_children (alloc h n p r par x) =
     (if x = n then [] else if par = Some x then e_children (h x) @ [n] else e_children (h x))"
  by (cases par) (auto simp: alloc_def Let_def)

lemma alloc_heap_ok:
  assumes "heap_ok h n" "\<forall>q. par = Some q \<longrightarrow> q < n"
  shows "heap_ok (alloc h n p r par) (Suc n)"
proof -
  have ne: "par \<noteq> Some n" using assms(2) by auto
  show ?thesis
    unfolding heap_ok_def
  proof (intro conjI allI impI ballI)
    fix a q assume "a < Suc n" "e_parent (alloc h n p r par a) = Some q"
    then show "q < a"
      using assms by (auto simp: alloc_parent [OF ne] heap_ok_def split: if_splits)
  next
    fix a x assume a: "a < Suc n" and x: "x \<in> set (e_children (alloc h n p r par a))"
    have an: "a \<noteq> n" using x by (auto simp: alloc_children [OF ne])
    then have a': "a < n" using a by simp
    have "x = n \<and> par = Some a \<or> x \<in> set (e_children (h a))"
      using x an by (auto simp: alloc_children [OF ne] split: if_splits)
    moreover have "x < n" if "x \<in> set (e_children (h a))"
      using assms(1) a' that unfolding heap_ok_def by blast
    ultimately show "x < Suc n" by auto
  next
    fix a x assume a: "a < Suc n" and x: "x \<in> set (e_children (alloc h n p r par a))"
    have an: "a \<noteq> n" using x by (auto simp: alloc_children [OF ne])
    then have a': "a < n" using a by simp
    have "x = n \<and> par = Some a \<or> x \<in> set (e_children (h a)) \<and> x < n"
      using x an assms(1) a' by (auto simp: alloc_children [OF ne] heap_ok_def split: if_splits)
    then show "e_parent (alloc h n p r par x) = Some a"
      using assms(1) a' by (auto simp: alloc_parent [OF ne] heap_ok_def)
  qed
qed

lemma alloc_frame:
  assumes "heap_ok h n" "\<forall>q. par = Some q \<longrightarrow> q < n" "live h a" "a < n"
  shows "live (alloc h n p r par) a \<and> path (alloc h n p r par) a = path h a"
proof (rule live_frame [OF assms(3,4)])
  show "\<forall>y<n. \<forall>p. e_parent (h y) = Some p \<longrightarrow> p < y"
    using assms(1) by (simp add: heap_ok_def)
  have ne: "par \<noteq> Some n" using assms(2) by auto
  show "\<forall>y<n. e_parent (alloc h n p r par y) = e_parent (h y) \<and>
          set (e_children (h y)) \<subseteq> set (e_children (alloc h n p r par y))"
    by (auto simp: alloc_parent [OF ne] alloc_children [OF ne])
qed

lemma alloc_new:
  assumes "heap_ok h n" "\<forall>q. par = Some q \<longrightarrow> q < n \<and> live h q"
  shows "live (alloc h n p r par) n
     \<and> path (alloc h n p r par) n =
         (case par of None \<Rightarrow> Some [n] | Some q \<Rightarrow> map_option (\<lambda>pp. pp @ [n]) (path h q))
     \<and> e_children (alloc h n p r par n) = []"
proof (cases par)
  case None
  then show ?thesis by (simp add: alloc_def path_top live.live_top)
next
  case (Some q)
  then have q: "q < n" "live h q" using assms(2) by auto
  have ne: "par \<noteq> Some n" using q Some by auto
  have fr: "live (alloc h n p r par) q" "path (alloc h n p r par) q = path h q"
    using alloc_frame [OF assms(1) _ q(2,1), of par p r] q Some by auto
  have par: "e_parent (alloc h n p r par n) = Some q"
    using q by (simp add: alloc_parent Some)
  have mem: "n \<in> set (e_children (alloc h n p r par q))"
    using q by (simp add: alloc_children Some)
  have "live (alloc h n p r par) n" using par fr(1) mem by (rule live.live_child)
  then show ?thesis
    using path_child [OF par fr(1)] fr(2) Some q by (simp add: alloc_children)
qed

lemma list_index_mem:
  "x \<in> set xs \<Longrightarrow> \<exists>i. list_index xs x = Inr i \<and> i < length xs \<and> xs ! i = x"
  by (induction xs) auto

lemma py_get_nat: "i < length xs \<Longrightarrow> py_get xs (int i) = Inr (xs ! i)"
  by (simp add: py_get_def)

lemma py_get_last: "xs \<noteq> [] \<Longrightarrow> py_get xs (- 1) = Inr (last xs)"
  by (cases xs rule: rev_cases) (auto simp: py_get_def nth_append)

lemma index_live:
  "live h a \<Longrightarrow> \<exists>i. ChatEntry_index h a = Inr i"
  by (erule live.cases) (auto simp: ChatEntry_index_def dest: list_index_mem)

lemma updateCursorAttrs_live:
  assumes "live (entries s) (c_cursor s)"
  shows "\<exists>p i. updateCursorAttrs s = Some (Ok (s\<lparr>c_cursorPath := p, c_cursorSiblingIndex := int i\<rparr>))
           \<and> path (entries s) (c_cursor s) = Some p
           \<and> ChatEntry_index (entries s) (c_cursor s) = Inr i"
proof -
  obtain p where p: "path (entries s) (c_cursor s) = Some p"
    using live_path [OF assms] by blast
  obtain i where i: "ChatEntry_index (entries s) (c_cursor s) = Inr i"
    using index_live [OF assms] by blast
  show ?thesis using p i by (simp add: updateCursorAttrs_def)
qed

lemma wf_move:
  assumes "wf s" "x < next_entry s" "live (entries s) x"
  shows "\<exists>p i. updateCursorAttrs (s\<lparr>c_cursor := x\<rparr>)
            = Some (Ok (s\<lparr>c_cursor := x, c_cursorPath := p, c_cursorSiblingIndex := int i\<rparr>))
          \<and> wf (s\<lparr>c_cursor := x, c_cursorPath := p, c_cursorSiblingIndex := int i\<rparr>)"
proof -
  have "live (entries (s\<lparr>c_cursor := x\<rparr>)) (c_cursor (s\<lparr>c_cursor := x\<rparr>))"
    using assms(3) by simp
  from updateCursorAttrs_live [OF this] obtain p i where
    "updateCursorAttrs (s\<lparr>c_cursor := x\<rparr>)
       = Some (Ok (s\<lparr>c_cursor := x, c_cursorPath := p, c_cursorSiblingIndex := int i\<rparr>))"
    by auto
  moreover have "wf (s\<lparr>c_cursor := x, c_cursorPath := p, c_cursorSiblingIndex := int i\<rparr>)"
    using assms by (simp add: wf_def)
  ultimately show ?thesis by blast
qed

lemma wf_parent:
  assumes "wf s" "a < next_entry s" "live (entries s) a" "e_parent (entries s a) = Some p"
  shows "p < next_entry s \<and> live (entries s) p \<and> a \<in> set (e_children (entries s p))"
proof -
  have "p < a" using assms(1,2,4) by (auto simp: wf_def heap_ok_def)
  then show ?thesis using live_parent [OF assms(3,4)] assms(2) by simp
qed

lemma wf_child:
  assumes "wf s" "a < next_entry s" "live (entries s) a" "x \<in> set (e_children (entries s a))"
  shows "x < next_entry s \<and> live (entries s) x \<and> e_parent (entries s x) = Some a"
proof -
  have "x < next_entry s \<and> e_parent (entries s x) = Some a"
    using assms(1,2,4) unfolding wf_def heap_ok_def by blast
  then show ?thesis using assms(3,4) by (auto intro: live.live_child)
qed

lemma up_wf: "wf s \<Longrightarrow> \<exists>r. up s = Some r \<and> wf (state_of r)"
proof (cases "e_parent (entries s (c_cursor s))")
  case None
  assume "wf s" then show ?thesis using None by (simp add: up_def)
next
  case (Some p)
  assume w: "wf s"
  then have "p < next_entry s \<and> live (entries s) p"
    using wf_parent [OF w _ _ Some] by (simp add: wf_def)
  then show ?thesis using wf_move [OF w, of p] w Some by (auto simp: up_def)
qed

lemma left_wf: "wf s \<Longrightarrow> \<exists>r. left s = Some r \<and> wf (state_of r)"
proof (cases "e_parent (entries s (c_cursor s))")
  case None
  assume "wf s" then show ?thesis using None by (simp add: left_def)
next
  case (Some p)
  assume w: "wf s"
  then have p: "p < next_entry s" "live (entries s) p"
    using wf_parent [OF w _ _ Some] by (simp_all add: wf_def)
  show ?thesis
  proof (cases "py_get (e_children (entries s p)) (c_cursorSiblingIndex s - 1)")
    case (Inl e)
    then show ?thesis using w Some by (simp add: left_def)
  next
    case (Inr c)
    then have "c \<in> set (e_children (entries s p))"
      by (auto simp: py_get_def split: if_splits)
    then have "c < next_entry s \<and> live (entries s) c"
      using wf_child [OF w p] by simp
    then show ?thesis using wf_move [OF w, of c] w Some Inr by (auto simp: left_def)
  qed
qed

lemma right_wf: "wf s \<Longrightarrow> \<exists>r. right s = Some r \<and> wf (state_of r)"
proof (cases "e_parent (entries s (c_cursor s))")
  case None
  assume "wf s" then show ?thesis using None by (simp add: right_def)
next
  case (Some p)
  assume w: "wf s"
  then have p: "p < next_entry s" "live (entries s) p"
    using wf_parent [OF w _ _ Some] by (simp_all add: wf_def)
  show ?thesis
  proof (cases "py_get (e_children (entries s p)) (c_cursorSiblingIndex s + 1)")
    case (Inl e)
    then show ?thesis using w Some by (simp add: right_def)
  next
    case (Inr c)
    then have "c \<in> set (e_children (entries s p))"
      by (auto simp: py_get_def split: if_splits)
    then have "c < next_entry s \<and> live (entries s) c"
      using wf_child [OF w p] by simp
    then show ?thesis using wf_move [OF w, of c] w Some Inr by (auto simp: right_def)
  qed
qed

lemma wf_path:
  assumes "wf s"
  shows "c_path s \<noteq> [] \<and> last (c_path s) = c_current s \<and> linked (entries s) (c_path s)
     \<and> (\<forall>x\<in>set (c_path s). x < next_entry s \<and> live (entries s) x)"
proof -
  have l: "live (entries s) (c_current s)" and n: "c_current s < next_entry s"
    and p: "path (entries s) (c_current s) = Some (c_path s)"
    using assms by (simp_all add: wf_def)
  have "\<forall>x\<in>set (c_path s). x < next_entry s"
    using live_below [OF l n _ p] assms by (simp add: wf_def heap_ok_def)
  then show ?thesis using live_path [OF l] p by auto
qed

lemma top_wf: "wf s \<Longrightarrow> \<exists>r. top s = Some r \<and> wf (state_of r)"
proof -
  assume w: "wf s"
  have "c_path s \<noteq> []" using wf_path [OF w] by simp
  then have g: "py_get (c_path s) 0 = Inr (c_path s ! 0)" "c_path s ! 0 \<in> set (c_path s)"
    by (simp_all add: py_get_def)
  then have "c_path s ! 0 < next_entry s \<and> live (entries s) (c_path s ! 0)"
    using wf_path [OF w] by blast
  then show ?thesis using wf_move [OF w, of "c_path s ! 0"] w g by (auto simp: top_def)
qed

lemma bottom_wf: "wf s \<Longrightarrow> \<exists>r. bottom s = Some r \<and> wf (state_of r)"
proof -
  assume w: "wf s"
  then have "c_current s < next_entry s \<and> live (entries s) (c_current s)" by (simp add: wf_def)
  then show ?thesis using wf_move [OF w, of "c_current s"] w by (auto simp: bottom_def)
qed

lemma returnToCurrent_wf: "wf s \<Longrightarrow> \<exists>r. returnToCurrent s = Some r \<and> wf (state_of r)"
  by (simp add: returnToCurrent_def wf_def)

lemma down_to:
  assumes w: "wf s" and ne: "e_children (entries s (c_cursor s)) \<noteq> []"
    and d: "downIdx s = Inr j" and g: "py_get (e_children (entries s (c_cursor s))) j = Inr x"
    and mem: "x \<in> set (e_children (entries s (c_cursor s)))"
  shows "\<exists>p i. down s = Some (Ok (s\<lparr>c_cursor := x, c_cursorPath := p, c_cursorSiblingIndex := int i\<rparr>))
     \<and> wf (s\<lparr>c_cursor := x, c_cursorPath := p, c_cursorSiblingIndex := int i\<rparr>)"
proof -
  have c: "c_cursor s < next_entry s" "live (entries s) (c_cursor s)"
    using w by (simp_all add: wf_def)
  have "x < next_entry s \<and> live (entries s) x" using wf_child [OF w c mem] by simp
  then obtain p i where m: "updateCursorAttrs (s\<lparr>c_cursor := x\<rparr>)
            = Some (Ok (s\<lparr>c_cursor := x, c_cursorPath := p, c_cursorSiblingIndex := int i\<rparr>))"
          "wf (s\<lparr>c_cursor := x, c_cursorPath := p, c_cursorSiblingIndex := int i\<rparr>)"
    using wf_move [OF w, of x] by blast
  have "down s = updateCursorAttrs (s\<lparr>c_cursor := x\<rparr>)"
    unfolding down_def using ne d g by simp
  then show ?thesis using m by auto
qed

lemma downIdx_on_path:
  assumes w: "wf s" and on: "c_cursor s \<in> set (c_path s)"
    and many: "length (e_children (entries s (c_cursor s))) > 1"
  shows "\<exists>k j. Suc k < length (c_path s) \<and> c_path s ! k = c_cursor s
     \<and> downIdx s = Inr (int j)
     \<and> py_get (e_children (entries s (c_cursor s))) (int j) = Inr (c_path s ! Suc k)
     \<and> c_path s ! Suc k \<in> set (e_children (entries s (c_cursor s)))"
proof -
  let ?ps = "c_path s" and ?ch = "e_children (entries s (c_cursor s))"
  have pth: "?ps \<noteq> []" "last ?ps = c_current s" "linked (entries s) ?ps"
    using wf_path [OF w] by simp_all
  have leaf: "e_children (entries s (c_current s)) = []" using w by (simp add: wf_def)
  obtain k where k: "list_index ?ps (c_cursor s) = Inr k" "k < length ?ps" "?ps ! k = c_cursor s"
    using list_index_mem [OF on] by blast
  have sk: "Suc k < length ?ps"
  proof (rule ccontr)
    assume "\<not> Suc k < length ?ps"
    then have "k = length ?ps - 1" using k(2) by simp
    then have "c_cursor s = c_current s" using k(3) pth(1,2) by (simp add: last_conv_nth)
    then show False using leaf many by simp
  qed
  have lk: "e_parent (entries s (?ps ! Suc k)) = Some (c_cursor s)" "?ps ! Suc k \<in> set ?ch"
    using pth(3) k(3) sk unfolding linked_def by auto
  obtain j where j: "list_index ?ch (?ps ! Suc k) = Inr j" "j < length ?ch" "?ch ! j = ?ps ! Suc k"
    using list_index_mem [OF lk(2)] by blast
  have g: "py_get ?ps (int k + 1) = Inr (?ps ! Suc k)"
    using py_get_nat [OF sk] by (simp add: add.commute)
  have ix: "ChatEntry_index (entries s) (?ps ! Suc k) = Inr j"
    using lk(1) j(1) by (simp add: ChatEntry_index_def)
  have "downIdx s = Inr (int j)"
    unfolding downIdx_def using on many k(1) g ix by simp
  moreover have "py_get ?ch (int j) = Inr (?ps ! Suc k)"
    using py_get_nat [OF j(2)] j(3) by simp
  ultimately show ?thesis using sk k(3) lk(2) by blast
qed

lemma down_on_path:
  assumes w: "wf s" and on: "c_cursor s \<in> set (c_path s)"
    and many: "length (e_children (entries s (c_cursor s))) > 1"
  shows "\<exists>k p i. Suc k < length (c_path s) \<and> c_path s ! k = c_cursor s
     \<and> c_path s ! Suc k \<in> set (e_children (entries s (c_cursor s)))
     \<and> down s = Some (Ok (s\<lparr>c_cursor := c_path s ! Suc k, c_cursorPath := p,
                              c_cursorSiblingIndex := int i\<rparr>))
     \<and> wf (s\<lparr>c_cursor := c_path s ! Suc k, c_cursorPath := p, c_cursorSiblingIndex := int i\<rparr>)"
proof -
  obtain k j where kj: "Suc k < length (c_path s)" "c_path s ! k = c_cursor s"
     "downIdx s = Inr (int j)"
     "py_get (e_children (entries s (c_cursor s))) (int j) = Inr (c_path s ! Suc k)"
     "c_path s ! Suc k \<in> set (e_children (entries s (c_cursor s)))"
    using downIdx_on_path [OF assms] by blast
  have ne: "e_children (entries s (c_cursor s)) \<noteq> []" using many by auto
  from down_to [OF w ne kj(3,4,5)] kj(1,2,5) show ?thesis by blast
qed

lemma down_last:
  assumes w: "wf s" and ne: "e_children (entries s (c_cursor s)) \<noteq> []"
    and off: "\<not> (c_cursor s \<in> set (c_path s) \<and> length (e_children (entries s (c_cursor s))) > 1)"
  shows "\<exists>p i. down s = Some (Ok (s\<lparr>c_cursor := last (e_children (entries s (c_cursor s))),
                 c_cursorPath := p, c_cursorSiblingIndex := int i\<rparr>))
     \<and> wf (s\<lparr>c_cursor := last (e_children (entries s (c_cursor s))), c_cursorPath := p,
              c_cursorSiblingIndex := int i\<rparr>)"
proof -
  have d: "downIdx s = Inr (- 1)" unfolding downIdx_def using off by auto
  show ?thesis
    by (rule down_to [OF w ne d py_get_last [OF ne]]) (simp add: ne)
qed

lemma down_wf: "wf s \<Longrightarrow> \<exists>r. down s = Some r \<and> wf (state_of r)"
proof -
  assume w: "wf s"
  consider "e_children (entries s (c_cursor s)) = []"
    | "e_children (entries s (c_cursor s)) \<noteq> []" "c_cursor s \<in> set (c_path s) \<and> length (e_children (entries s (c_cursor s))) > 1"
    | "e_children (entries s (c_cursor s)) \<noteq> []" "\<not> (c_cursor s \<in> set (c_path s) \<and> length (e_children (entries s (c_cursor s))) > 1)"
    by blast
  then show ?thesis
  proof cases
    case 1
    then show ?thesis using w by (simp add: down_def)
  next
    case 2
    then show ?thesis using down_on_path [OF w] by fastforce
  next
    case 3
    then show ?thesis using down_last [OF w] by fastforce
  qed
qed

lemma updateCursorAttrs_spec:
  assumes "live (entries t) (c_cursor t)"
  shows "\<exists>s'. updateCursorAttrs t = Some (Ok s')
     \<and> entries s' = entries t \<and> next_entry s' = next_entry t
     \<and> responses s' = responses t \<and> next_response s' = next_response t
     \<and> c_root s' = c_root t \<and> c_current s' = c_current t \<and> c_previous s' = c_previous t
     \<and> c_cursor s' = c_cursor t \<and> c_path s' = c_path t
     \<and> path (entries t) (c_cursor t) = Some (c_cursorPath s')
     \<and> ChatEntry_index (entries t) (c_cursor t) = Inr (nat (c_cursorSiblingIndex s'))
     \<and> 0 \<le> c_cursorSiblingIndex s'"
proof -
  obtain p i where "updateCursorAttrs t = Some (Ok (t\<lparr>c_cursorPath := p, c_cursorSiblingIndex := int i\<rparr>))"
     "path (entries t) (c_cursor t) = Some p" "ChatEntry_index (entries t) (c_cursor t) = Inr i"
    using updateCursorAttrs_live [OF assms] by blast
  then show ?thesis by simp
qed

lemma wf_cong:
  assumes "entries s' = entries t" "next_entry s' = next_entry t" "c_root s' = c_root t"
    "c_current s' = c_current t" "c_cursor s' = c_cursor t" "c_path s' = c_path t"
  shows "wf s' = wf t"
  using assms by (simp add: wf_def)

lemma addDescendant_spec:
  assumes w: "wf s"
  shows "\<exists>s' cp. addDescendant p r s = Some (Ok s') \<and> wf s'
     \<and> path (entries s) (c_cursor s) = Some cp
     \<and> c_current s' = next_entry s \<and> c_cursor s' = next_entry s
     \<and> c_path s' = cp @ [next_entry s] \<and> next_entry s' = Suc (next_entry s)
     \<and> entries s' = alloc (entries s) (next_entry s) p
          (case r of None \<Rightarrow> addDescendant_default | Some x \<Rightarrow> x) (Some (c_cursor s))
     \<and> responses s' = responses s \<and> next_response s' = next_response s
     \<and> c_root s' = c_root s \<and> c_previous s' = Some (c_current s)"
proof -
  let ?n = "next_entry s" and ?r = "case r of None \<Rightarrow> addDescendant_default | Some x \<Rightarrow> x"
  let ?h = "alloc (entries s) ?n p ?r (Some (c_cursor s))"
  have hk: "heap_ok (entries s) ?n" and c: "c_cursor s < ?n" "live (entries s) (c_cursor s)"
    and rt: "c_root s < ?n" "e_parent (entries s (c_root s)) = None"
    using w by (simp_all add: wf_def)
  obtain cp where cp: "path (entries s) (c_cursor s) = Some cp"
    using live_path [OF c(2)] by blast
  have new: "live ?h ?n" "path ?h ?n = Some (cp @ [?n])" "e_children (?h ?n) = []"
    using alloc_new [OF hk, of "Some (c_cursor s)" p ?r] c cp by simp_all
  have hk': "heap_ok ?h (Suc ?n)"
    using alloc_heap_ok [OF hk, of "Some (c_cursor s)" p ?r] c by simp
  define t where "t = (s\<lparr>c_previous := Some (c_current s)\<rparr>)
       \<lparr>entries := ?h, next_entry := Suc ?n\<rparr>\<lparr>c_current := ?n\<rparr>\<lparr>c_path := cp @ [?n], c_cursor := ?n\<rparr>"
  have run: "addDescendant p r s = updateCursorAttrs t"
    unfolding addDescendant_def t_def
    by (simp add: ChatEntry_init_alloc Let_def new(2))
  have wt: "wf t"
    unfolding wf_def t_def using hk' new rt c by (simp add: alloc_parent)
  have "live (entries t) (c_cursor t)" using new(1) by (simp add: t_def)
  from updateCursorAttrs_spec [OF this] obtain s' where s': "updateCursorAttrs t = Some (Ok s')"
     "entries s' = entries t" "next_entry s' = next_entry t"
     "responses s' = responses t" "next_response s' = next_response t"
     "c_root s' = c_root t" "c_current s' = c_current t" "c_previous s' = c_previous t"
     "c_cursor s' = c_cursor t" "c_path s' = c_path t" by blast
  have "wf s'" using wf_cong [of s' t] s' wt by simp
  then show ?thesis using run s' cp by (simp add: t_def)
qed

lemma alloc_payload:
  "par \<noteq> Some n \<Longrightarrow> e_prompt (alloc h n p r par n) = p \<and> e_response (alloc h n p r par n) = r"
  by (cases par) (auto simp: alloc_def Let_def)

lemma alloc_old_payload:
  "x \<noteq> n \<Longrightarrow> e_prompt (alloc h n p r par x) = e_prompt (h x)
      \<and> e_response (alloc h n p r par x) = e_response (h x)"
  by (cases par) (auto simp: alloc_def Let_def)

lemma same_shape:
  assumes sh: "\<forall>y. e_parent (h' y) = e_parent (h y) \<and> e_children (h' y) = e_children (h y)"
  shows "heap_ok h' n = heap_ok h n"
    and "heap_ok h n \<Longrightarrow> x < n \<Longrightarrow> live h x \<Longrightarrow> live h' x \<and> path h' x = path h x"
proof -
  show "heap_ok h' n = heap_ok h n" using sh by (simp add: heap_ok_def)
  assume "heap_ok h n" "x < n" "live h x"
  then show "live h' x \<and> path h' x = path h x"
    using live_frame [of h x n h'] sh by (simp add: heap_ok_def)
qed

lemma wf_same_shape:
  assumes w: "wf s"
    and sh: "\<forall>y. e_parent (h' y) = e_parent (entries s y) \<and> e_children (h' y) = e_children (entries s y)"
  shows "wf (s\<lparr>entries := h'\<rparr>)"
proof -
  have hk: "heap_ok (entries s) (next_entry s)" using w by (simp add: wf_def)
  have "live h' (c_current s) \<and> path h' (c_current s) = path (entries s) (c_current s)"
    using same_shape(2) [OF sh hk, of "c_current s"] w by (simp add: wf_def)
  moreover have "live h' (c_cursor s)"
    using same_shape(2) [OF sh hk, of "c_cursor s"] w by (simp add: wf_def)
  moreover have "heap_ok h' (next_entry s)" using same_shape(1) [OF sh] hk by simp
  ultimately show ?thesis using w sh by (simp add: wf_def)
qed

lemma Response_Default_isDefault: "Response_isDefault Response_Default"
  by (simp add: Response_isDefault_def Response_Default_def Usage_isDefault_def Usage_Default_def)

lemma Message_Default_isDefault: "Message_isDefault Message_Default"
  by (simp add: Message_isDefault_def Message_Default_def)

lemma clear_heap_ok:
  assumes "heap_ok h n"
  shows "heap_ok (h(a := (h a)\<lparr>e_children := []\<rparr>)) n"
  unfolding heap_ok_def
proof (intro conjI allI impI ballI)
  fix b p assume "b < n" "e_parent ((h(a := (h a)\<lparr>e_children := []\<rparr>)) b) = Some p"
  then have "e_parent (h b) = Some p" by (cases "b = a") simp_all
  then show "p < b" using assms \<open>b < n\<close> unfolding heap_ok_def by blast
next
  fix b x assume b: "b < n" and "x \<in> set (e_children ((h(a := (h a)\<lparr>e_children := []\<rparr>)) b))"
  then have x: "x \<in> set (e_children (h b))" by (cases "b = a") simp_all
  then show "x < n" using assms b unfolding heap_ok_def by blast
next
  fix b x assume b: "b < n" and "x \<in> set (e_children ((h(a := (h a)\<lparr>e_children := []\<rparr>)) b))"
  then have x: "x \<in> set (e_children (h b))" by (cases "b = a") simp_all
  then have "e_parent (h x) = Some b" using assms b unfolding heap_ok_def by blast
  then show "e_parent ((h(a := (h a)\<lparr>e_children := []\<rparr>)) x) = Some b"
    by (cases "x = a") simp_all
qed

lemma clear_spec:
  assumes hk: "heap_ok (entries s) (next_entry s)" and rt: "c_root s < next_entry s"
    and top: "e_parent (entries s (c_root s)) = None"
  shows "\<exists>s'. clear s = Some (Ok s') \<and> wf s' \<and> isDefault s'
     \<and> \<not> canMoveUp s' \<and> \<not> canMoveDown s' \<and> \<not> canMoveLeft s' \<and> \<not> canMoveRight s'
     \<and> c_root s' = c_root s \<and> c_current s' = next_entry s \<and> c_cursor s' = next_entry s
     \<and> c_path s' = [c_root s, next_entry s] \<and> next_entry s' = Suc (next_entry s)
     \<and> e_response (entries s' (next_entry s)) = next_response s
     \<and> next_response s' = Suc (next_response s)"
proof -
  let ?n = "next_entry s" and ?root = "c_root s"
  define h1 where "h1 = (entries s)(?root := (entries s ?root)\<lparr>e_children := []\<rparr>)"
  define h where "h = alloc h1 ?n (next_prompt s) (next_response s) (Some ?root)"
  have hk1: "heap_ok h1 ?n" unfolding h1_def by (rule clear_heap_ok [OF hk])
  have top1: "e_parent (h1 ?root) = None" "e_children (h1 ?root) = []"
    using top by (simp_all add: h1_def)
  have lr: "live h1 ?root" using top1 by (simp add: live.live_top)
  have pr: "path h1 ?root = Some [?root]" using top1 by (simp add: path_top)
  have new: "live h ?n" "path h ?n = Some [?root, ?n]" "e_children (h ?n) = []"
    unfolding h_def
    using alloc_new [OF hk1, of "Some ?root" "next_prompt s" "next_response s"] rt lr pr
    by simp_all
  have hk': "heap_ok h (Suc ?n)"
    unfolding h_def using alloc_heap_ok [OF hk1, of "Some ?root"] rt by simp
  have ch: "e_children (h ?root) = [?n]" "e_parent (h ?n) = Some ?root"
    "e_prompt (h ?n) = next_prompt s" "e_response (h ?n) = next_response s"
    "e_parent (h ?root) = None"
    unfolding h_def using rt top1 by (simp_all add: alloc_children alloc_parent alloc_payload)
  define s' where "s' = ((((s\<lparr>entries := h1\<rparr>)
      \<lparr>prompts := (prompts s)(next_prompt s := Message_Default),
        next_prompt := Suc (next_prompt s)\<rparr>)
      \<lparr>responses := (responses s)(next_response s := Response_Default),
        next_response := Suc (next_response s)\<rparr>)
      \<lparr>entries := h, next_entry := Suc ?n\<rparr>\<lparr>c_current := ?n, c_previous := None\<rparr>)
      \<lparr>c_path := [?root, ?n], c_cursor := ?n, c_cursorSiblingIndex := 0\<rparr>\<lparr>c_cursorPath := [?root, ?n]\<rparr>"
  have sel: "entries s' = h" "next_entry s' = Suc ?n" "c_root s' = ?root" "c_current s' = ?n"
    "c_cursor s' = ?n" "c_path s' = [?root, ?n]" "c_cursorSiblingIndex s' = 0"
    "responses s' = (responses s)(next_response s := Response_Default)"
    "next_response s' = Suc (next_response s)"
    "prompts s' = (prompts s)(next_prompt s := Message_Default)"
    by (simp_all add: s'_def)
  have run: "clear s = Some (Ok s')"
    unfolding clear_def s'_def
    using new(2)
    by (simp add: ChatEntry_init_alloc Response_new_def Message_alloc_def Let_def
          h_def [symmetric] h1_def [symmetric] del: fun_upd_apply)
  have wt: "wf s'"
    unfolding wf_def sel using hk' new rt ch by simp
  have "isDefault s'"
    unfolding isDefault_def sel using ch new(3)
    by (simp add: Response_Default_isDefault Message_Default_isDefault)
  moreover have "\<not> canMoveUp s'" unfolding canMoveUp_def sel using ch by simp
  moreover have "\<not> canMoveDown s'" unfolding canMoveDown_def sel using new(3) by simp
  moreover have "\<not> canMoveLeft s'" unfolding canMoveLeft_def sel by simp
  moreover have "\<not> canMoveRight s'" unfolding canMoveRight_def sel using ch by simp
  ultimately show ?thesis using run wt ch(4) sel by simp
qed

lemma addSibling_spec:
  assumes w: "wf s"
  shows "\<exists>s'. addSibling p r s = Some (Ok s') \<and> wf s'
     \<and> c_current s' = next_entry s \<and> c_cursor s' = next_entry s
     \<and> next_entry s' = Suc (next_entry s)
     \<and> e_parent (entries s' (next_entry s)) = e_parent (entries s (c_cursor s))
     \<and> c_root s' = c_root s \<and> c_previous s' = Some (c_current s)"
proof -
  let ?n = "next_entry s" and ?cur = "c_current s"
  define r' where "r' = (case r of None \<Rightarrow> addSibling_default | Some x \<Rightarrow> x)"
  define par where "par = e_parent (entries s (c_cursor s))"
  define h where "h = alloc (entries s) ?n p r' par"
  define pa where "pa = e_prompt (entries s ?cur)"
  define ra where "ra = e_response (entries s ?cur)"
  have hk: "heap_ok (entries s) ?n" and c: "c_cursor s < ?n" "live (entries s) (c_cursor s)"
    and rt: "c_root s < ?n" "e_parent (entries s (c_root s)) = None"
    using w by (simp_all add: wf_def)
  have parq: "\<forall>q. par = Some q \<longrightarrow> q < ?n \<and> live (entries s) q"
  proof (intro allI impI)
    fix q assume q: "par = Some q"
    then have "e_parent (entries s (c_cursor s)) = Some q" by (simp add: par_def)
    then show "q < ?n \<and> live (entries s) q" using wf_parent [OF w c] by simp
  qed
  have ne: "par \<noteq> Some ?n" using parq by auto
  have new: "live h ?n" "e_children (h ?n) = []"
    unfolding h_def using alloc_new [OF hk parq, of p r'] by simp_all
  obtain np where np: "path h ?n = Some np"
    using live_path [OF new(1)] by blast
  have hk': "heap_ok h (Suc ?n)"
    unfolding h_def using alloc_heap_ok [OF hk, of par p r'] parq by simp
  have old: "e_parent (h (c_root s)) = None" "e_parent (h ?n) = par"
    unfolding h_def using ne rt by (simp_all add: alloc_parent)
  define t where "t = (((s\<lparr>c_previous := Some ?cur\<rparr>)
       \<lparr>prompts := (prompts s)(pa := (prompts s pa)\<lparr>m_content := []\<rparr>)\<rparr>)
       \<lparr>responses := (responses s)(ra := (responses s ra)\<lparr>r_choices := []\<rparr>)\<rparr>)
       \<lparr>entries := h, next_entry := Suc ?n\<rparr>\<lparr>c_current := ?n\<rparr>\<lparr>c_path := np, c_cursor := ?n\<rparr>"
  have sel: "entries t = h" "next_entry t = Suc ?n" "c_root t = c_root s" "c_current t = ?n"
    "c_cursor t = ?n" "c_path t = np" "c_previous t = Some ?cur"
    by (simp_all add: t_def)
  have run: "addSibling p r s = updateCursorAttrs t"
    unfolding addSibling_def t_def
    using np
    by (simp add: ChatEntry_init_alloc Let_def r'_def [symmetric] pa_def [symmetric]
          ra_def [symmetric] par_def [symmetric] h_def [symmetric] del: fun_upd_apply)
  have wt: "wf t"
    unfolding wf_def sel using hk' new rt np old by simp
  have "live (entries t) (c_cursor t)" using new(1) by (simp add: sel)
  from updateCursorAttrs_spec [OF this] obtain s' where s': "updateCursorAttrs t = Some (Ok s')"
     "entries s' = entries t" "next_entry s' = next_entry t"
     "c_root s' = c_root t" "c_current s' = c_current t" "c_previous s' = c_previous t"
     "c_cursor s' = c_cursor t" "c_path s' = c_path t" by blast
  have "wf s'" using wf_cong [of s' t] s' wt by simp
  then show ?thesis using run s' old(2) by (simp add: sel par_def)
qed

lemma Chat_init_spec:
  assumes hk: "heap_ok (entries s) (next_entry s)"
  shows "\<exists>s'. Chat_init s = Some (Ok s') \<and> wf s' \<and> isDefault s'
     \<and> c_root s' = next_entry s \<and> c_current s' = Suc (next_entry s)
     \<and> c_cursor s' = Suc (next_entry s)
     \<and> c_path s' = [next_entry s, Suc (next_entry s)]"
proof -
  let ?n = "next_entry s"
  define h where "h = alloc (entries s) ?n (next_prompt s) (next_response s) None"
  define t where "t = (((s\<lparr>prompts := (prompts s)(next_prompt s := Message_Default),
        next_prompt := Suc (next_prompt s)\<rparr>)
      \<lparr>responses := (responses s)(next_response s := Response_Default),
        next_response := Suc (next_response s)\<rparr>)\<lparr>entries := h, next_entry := Suc ?n\<rparr>)\<lparr>c_root := ?n\<rparr>"
  have sel: "entries t = h" "next_entry t = Suc ?n" "c_root t = ?n" by (simp_all add: t_def)
  have run: "Chat_init s = clear t"
    unfolding Chat_init_def t_def
    by (simp add: ChatEntry_init_alloc Response_new_def Message_alloc_def Let_def
          h_def [symmetric] del: fun_upd_apply)
  have "heap_ok (entries t) (next_entry t)"
    unfolding sel h_def using alloc_heap_ok [OF hk, of None] by simp
  moreover have "c_root t < next_entry t" by (simp add: sel)
  moreover have "e_parent (entries t (c_root t)) = None"
    unfolding sel h_def by (simp add: alloc_parent)
  ultimately obtain s' where "clear t = Some (Ok s')" "wf s'" "isDefault s'"
     "c_root s' = c_root t" "c_current s' = next_entry t" "c_cursor s' = next_entry t"
     "c_path s' = [c_root t, next_entry t]"
    using clear_spec [of t] by blast
  then show ?thesis using run by (simp add: sel)
qed

lemma pass_prompt_fields:
  "entries (snd (pass_prompt p s)) = entries s \<and> next_entry (snd (pass_prompt p s)) = next_entry s
     \<and> c_root (snd (pass_prompt p s)) = c_root s \<and> c_current (snd (pass_prompt p s)) = c_current s
     \<and> c_cursor (snd (pass_prompt p s)) = c_cursor s \<and> c_path (snd (pass_prompt p s)) = c_path s
     \<and> responses (snd (pass_prompt p s)) = responses s
     \<and> next_response (snd (pass_prompt p s)) = next_response s"
  by (cases p) (simp_all add: Message_alloc_def)

lemma pass_prompt_wf: "wf s \<Longrightarrow> wf (snd (pass_prompt p s))"
  using wf_cong [of "snd (pass_prompt p s)" s] pass_prompt_fields [of p s] by simp

lemma step_wf:
  assumes w: "wf s"
  shows "\<exists>r. step x s = Some r \<and> wf (state_of r)"
proof (cases x)
  case (AddSibling p r)
  then show ?thesis
    using addSibling_spec [OF pass_prompt_wf [OF w, of p], of "fst (pass_prompt p s)" r]
    by (auto simp: split_def)
next
  case (AddDescendant p r)
  then show ?thesis
    using addDescendant_spec [OF pass_prompt_wf [OF w, of p], of "fst (pass_prompt p s)" r]
    by (auto simp: split_def)
next
  case Up then show ?thesis using up_wf [OF w] by simp
next
  case Down then show ?thesis using down_wf [OF w] by simp
next
  case Left then show ?thesis using left_wf [OF w] by simp
next
  case Right then show ?thesis using right_wf [OF w] by simp
next
  case Top then show ?thesis using top_wf [OF w] by simp
next
  case Bottom then show ?thesis using bottom_wf [OF w] by simp
next
  case ReturnToCurrent then show ?thesis using returnToCurrent_wf [OF w] by simp
next
  case Clear
  then show ?thesis using clear_spec [of s] w by (auto simp: wf_def)
next
  case (NewMessage m)
  then show ?thesis using w by (simp add: Message_alloc_def wf_def)
next
  case (NewResponse r)
  then show ?thesis using w by (simp add: Response_new_def wf_def)
next
  case (SetCurrentResponse r)
  then show ?thesis using wf_same_shape [OF w] by simp
next
  case (SetCurrentChoices cs)
  then show ?thesis using w by (simp add: wf_def)
next
  case (SetPromptContent c)
  then show ?thesis using w by (simp add: wf_def)
next
  case (SetPromptRole c)
  then show ?thesis using w by (simp add: wf_def)
qed

lemma module_store_ok: "heap_ok (entries module_store) (next_entry module_store)"
  by (simp add: module_store_def heap_ok_def)

lemma reachable_wf: "reachable s \<Longrightarrow> wf s"
proof (induction rule: reachable.induct)
  case (init s0 r)
  then show ?case using Chat_init_spec [of s0] by auto
next
  case (call s x r)
  then show ?case using step_wf [of s x] by auto
qed

lemmas chat_eval =
  chat_after_def Chat_init_def clear_def Response_new_def ChatEntry_init_def module_store_def
  path_def path_loop.simps Let_def addDescendant_def addSibling_def updateCursorAttrs_def
  ChatEntry_index_def up_def down_def left_def right_def top_def bottom_def
  returnToCurrent_def py_get_def downIdx_def addSibling_default_def addDescendant_default_def
  Message_new_def canMoveUp_def Message_alloc_def

lemma addDescendants_path:
  assumes "wf s" "c_cursor s = c_current s"
  shows "\<exists>s'. addDescendants as s = Some (Ok s') \<and> wf s' \<and> c_cursor s' = c_current s'
     \<and> length (c_path s') = length (c_path s) + length as"
  using assms
proof (induction as arbitrary: s)
  case Nil
  then show ?case by simp
next
  case (Cons a as)
  define q where "q = fst (pass_prompt (fst a) s)"
  define t where "t = snd (pass_prompt (fst a) s)"
  have t: "wf t" "entries t = entries s" "next_entry t = next_entry s"
    "c_cursor t = c_cursor s" "c_current t = c_current s" "c_path t = c_path s"
    unfolding t_def using pass_prompt_wf [OF Cons.prems(1)] pass_prompt_fields by simp_all
  have p: "path (entries t) (c_cursor t) = Some (c_path t)"
    using t(1) Cons.prems(2) t(4,5) by (simp add: wf_def)
  obtain s1 where s1: "addDescendant q (snd a) t = Some (Ok s1)" "wf s1"
    "c_current s1 = next_entry t" "c_cursor s1 = next_entry t"
    "c_path s1 = c_path t @ [next_entry t]"
    using addDescendant_spec [OF t(1), of q "snd a"] p by auto
  obtain s' where "addDescendants as s1 = Some (Ok s')" "wf s'" "c_cursor s' = c_current s'"
    "length (c_path s') = length (c_path s1) + length as"
    using Cons.IH [of s1] s1 by auto
  then show ?case using s1 t by (simp add: split_def q_def [symmetric] t_def [symmetric])
qed

text \<open>
  One \<open>Message\<close> handed to two entries is one object: when \<open>addSibling\<close> empties the
  content of the prompt of the superseded \<open>current\<close> (entry 3), the prompt of entry 2 is
  emptied with it.
\<close>

lemma shared_prompt_emptied:
  "(case chat_after [NewMessage (Message_new ''user'' ''a''),
                     AddDescendant (Existing 2) None, AddDescendant (Existing 2) None] of
      Some s \<Rightarrow>
        m_content (prompts s (e_prompt (entries s 2))) = ''a''
          \<and> (case addSibling 2 None s of
                Some (Ok s') \<Rightarrow>
                  e_prompt (entries s' 2) = e_prompt (entries s' 3)
                    \<and> m_content (prompts s' (e_prompt (entries s' 2))) = []
              | _ \<Rightarrow> False)
    | None \<Rightarrow> False)"
  by (simp add: chat_eval)

section \<open>Claims about the tree of entries\<close>

text \<open>
  Claim C1, as amended. \<open>path()\<close> walks the parent links up to and including the
  root, and \<open>Chat()\<close> already holds the root and one empty entry below it. After
  \<open>Chat()\<close>, made in any store whose entries are well linked, and \<open>n\<close> calls of
  \<open>addDescendant\<close> (whatever the prompts and responses), every call returns and
  \<open>chat.current.path()\<close> has length \<open>n + 2\<close>.
\<close>

theorem path_length_after_addDescendants:
  assumes "heap_ok (entries s0) (next_entry s0)"
  shows "path_length_after s0 as = Some (length as + 2)"
proof -
  obtain s1 where s1: "Chat_init s0 = Some (Ok s1)" "wf s1" "c_current s1 = Suc (next_entry s0)"
    "c_cursor s1 = Suc (next_entry s0)" "c_path s1 = [next_entry s0, Suc (next_entry s0)]"
    using Chat_init_spec [OF assms] by blast
  obtain s where s: "addDescendants as s1 = Some (Ok s)" "wf s"
    "length (c_path s) = length (c_path s1) + length as"
    using addDescendants_path [of s1 as] s1 by auto
  have "path (entries s) (c_current s) = Some (c_path s)" using s(2) by (simp add: wf_def)
  then show ?thesis using s1 s by (simp add: path_length_after_def)
qed

text \<open>The store of the freshly loaded module is such a store; one call gives length 3.\<close>

theorem path_length_after_addDescendants_witness:
  "heap_ok (entries module_store) (next_entry module_store)
   \<and> path_length_after module_store [(Fresh (Message_new ''user'' ''hi''), None)] = Some 3"
  using path_length_after_addDescendants [OF module_store_ok, of "[(Fresh (Message_new ''user'' ''hi''), None)]"]
    module_store_ok by simp

text \<open>
  Claim C1 as stated fails: after one call of \<open>addDescendant\<close> the length of the path
  is not the number of calls.
\<close>

theorem path_length_counterexample:
  "path_length_after module_store [(Fresh (Message_new ''user'' ''hi''), None)]
     \<noteq> Some (length [(Fresh (Message_new ''user'' ''hi''), None)])"
  by (simp add: path_length_after_def chat_eval)

text \<open>
  Claim C3. In every reachable state \<open>chat.clear()\<close> returns, and afterwards
  \<open>isDefault()\<close> holds and \<open>canMoveUp()\<close>, \<open>canMoveDown()\<close>, \<open>canMoveLeft()\<close> and
  \<open>canMoveRight()\<close> are all false.
\<close>

theorem clear_yields_default:
  assumes "reachable s"
  shows "\<exists>s'. clear s = Some (Ok s') \<and> isDefault s'
     \<and> \<not> canMoveUp s' \<and> \<not> canMoveDown s' \<and> \<not> canMoveLeft s' \<and> \<not> canMoveRight s'"
proof -
  have "wf s" using assms by (rule reachable_wf)
  then show ?thesis using clear_spec [of s] by (auto simp: wf_def)
qed

lemma reachable_fresh: "chat_after [] = Some s \<Longrightarrow> reachable s"
proof -
  assume a: "chat_after [] = Some s"
  obtain s' where s': "Chat_init module_store = Some (Ok s')"
    using Chat_init_spec [OF module_store_ok] by blast
  then have "s = s'" using a by (simp add: chat_after_def)
  moreover have "3 \<le> next_response module_store" by (simp add: module_store_def)
  ultimately show ?thesis using reachable.init [OF module_store_ok _ s'] by simp
qed

lemma calls_reachable:
  "reachable s \<Longrightarrow> \<forall>x\<in>set xs. \<forall>t. valid_op t x \<Longrightarrow> calls xs s = Some s' \<Longrightarrow> reachable s'"
proof (induction xs arbitrary: s)
  case Nil
  then show ?case by simp
next
  case (Cons x xs)
  then obtain r where r: "step x s = Some r" "calls xs (state_of r) = Some s'"
    by (auto split: option.splits)
  have "valid_op s x" using Cons.prems(2) by simp
  then have "reachable (state_of r)" using reachable.call [OF Cons.prems(1) _ r(1)] by simp
  then show ?case using Cons.IH [of "state_of r"] Cons.prems(2) r(2) by simp
qed

lemma chat_after_reachable:
  assumes "chat_after xs = Some s" "\<forall>x\<in>set xs. \<forall>t. valid_op t x"
  shows "reachable s"
proof -
  obtain s0 where s0: "Chat_init module_store = Some (Ok s0)"
    using Chat_init_spec [OF module_store_ok] by blast
  then have "chat_after [] = Some s0" by (simp add: chat_after_def)
  then have "reachable s0" by (rule reachable_fresh)
  moreover have "calls xs s0 = Some s" using assms(1) s0 by (simp add: chat_after_def)
  ultimately show ?thesis using calls_reachable assms(2) by blast
qed

lemma fresh_eval:
  "\<exists>s. chat_after [] = Some s \<and> c_cursor s = 1 \<and> c_root s = 0"
  by (simp add: chat_eval)

text \<open>
  The state after \<open>Chat()\<close>, \<open>addDescendant(Message("user", "hi"))\<close> and \<open>up()\<close> is
  reachable, and \<open>clear()\<close> behaves there as claim C3 says.
\<close>

theorem clear_yields_default_witness:
  "(case chat_after [AddDescendant (Fresh (Message_new ''user'' ''hi'')) None, Up] of
      Some s \<Rightarrow>
        reachable s
          \<and> (\<exists>s'. clear s = Some (Ok s') \<and> isDefault s'
                \<and> \<not> canMoveUp s' \<and> \<not> canMoveDown s' \<and> \<not> canMoveLeft s'
                \<and> \<not> canMoveRight s')
    | None \<Rightarrow> False)"
proof -
  obtain s where s: "chat_after [AddDescendant (Fresh (Message_new ''user'' ''hi'')) None, Up] = Some s"
    by (simp add: chat_eval)
  have r: "reachable s" using s by (rule chat_after_reachable) simp
  show ?thesis using clear_yields_default [OF r] s r by simp
qed

text \<open>
  Claim C2. In a reachable state whose cursor has a child, \<open>down()\<close> returns. When the
  cursor lies on the cached path to \<open>current\<close> and has more than one child, the new
  cursor is the entry that follows the old cursor on that path, and it is one of the
  children; in every other case the new cursor is the last child.
\<close>

theorem down_prefers_path:
  assumes "reachable s" "e_children (entries s (c_cursor s)) \<noteq> []"
  shows "\<exists>s'. down s = Some (Ok s')
     \<and> (if c_cursor s \<in> set (c_path s) \<and> 1 < length (e_children (entries s (c_cursor s)))
        then c_cursor s' \<in> set (e_children (entries s (c_cursor s)))
          \<and> (\<exists>k. Suc k < length (c_path s) \<and> c_path s ! k = c_cursor s
                \<and> c_path s ! Suc k = c_cursor s')
        else c_cursor s' = last (e_children (entries s (c_cursor s))))"
proof -
  have w: "wf s" using assms(1) by (rule reachable_wf)
  show ?thesis
  proof (cases "c_cursor s \<in> set (c_path s) \<and> 1 < length (e_children (entries s (c_cursor s)))")
    case True
    then obtain k p i where "Suc k < length (c_path s)" "c_path s ! k = c_cursor s"
      "c_path s ! Suc k \<in> set (e_children (entries s (c_cursor s)))"
      "down s = Some (Ok (s\<lparr>c_cursor := c_path s ! Suc k, c_cursorPath := p,
                              c_cursorSiblingIndex := int i\<rparr>))"
      using down_on_path [OF w] by blast
    then show ?thesis using True by auto
  next
    case False
    then obtain p i where
      "down s = Some (Ok (s\<lparr>c_cursor := last (e_children (entries s (c_cursor s))),
                 c_cursorPath := p, c_cursorSiblingIndex := int i\<rparr>))"
      using down_last [OF w assms(2)] by blast
    then show ?thesis using False by auto
  qed
qed

text \<open>
  A state in which the child that continues the path is not the last child: the cursor
  is the first real entry (address 1), its children are the entries 2 and 3, and the
  path to \<open>current\<close> runs through entry 2.
\<close>

theorem down_prefers_path_witness:
  "(case chat_after [AddDescendant (Fresh (Message_new ''user'' ''a'')) None, Up,
                     AddDescendant (Fresh (Message_new ''user'' ''b'')) None, Left,
                     AddDescendant (Fresh (Message_new ''user'' ''c'')) None, Up, Up] of
      Some s \<Rightarrow>
        reachable s \<and> e_children (entries s (c_cursor s)) = [2, 3] \<and> c_path s = [0, 1, 2, 4]
          \<and> c_cursor s = 1
          \<and> (\<exists>s'. down s = Some (Ok s') \<and> c_cursor s' = 2)
    | None \<Rightarrow> False)"
proof -
  obtain s where s: "chat_after [AddDescendant (Fresh (Message_new ''user'' ''a'')) None, Up,
                     AddDescendant (Fresh (Message_new ''user'' ''b'')) None, Left,
                     AddDescendant (Fresh (Message_new ''user'' ''c'')) None, Up, Up] = Some s"
    and v: "e_children (entries s (c_cursor s)) = [2, 3]" "c_path s = [0, 1, 2, 4]" "c_cursor s = 1"
    by (simp add: chat_eval)
  have r: "reachable s" using s by (rule chat_after_reachable) simp
  have ne: "e_children (entries s (c_cursor s)) \<noteq> []" using v by simp
  obtain s' k where d: "down s = Some (Ok s')" "Suc k < length (c_path s)"
    "c_path s ! k = c_cursor s" "c_path s ! Suc k = c_cursor s'"
    using down_prefers_path [OF r ne] v by auto
  have "k = 1" using d(2,3) v by (auto simp: nth_Cons' less_Suc_eq split: if_splits)
  then have "c_cursor s' = 2" using d(4) v by simp
  then show ?thesis using s r v d(1) by simp
qed

text \<open>
  Claim C4 fails on the code. \<open>returnToCurrent()\<close> moves the cursor without calling
  \<open>_updateCursorAttrs()\<close> (as \<open>bottom()\<close> does), so \<open>_cursorSiblingIndex\<close> still
  belongs to the old cursor. After \<open>Chat()\<close>, \<open>addSibling\<close>, \<open>addDescendant\<close>, \<open>up()\<close>
  and \<open>returnToCurrent()\<close> the cursor is an only child with cached index 1, and
  \<open>right()\<close> raises \<open>IndexError\<close>.
\<close>

theorem right_raises_after_returnToCurrent:
  "(case chat_after [AddSibling (Fresh (Message_new ''user'' ''a'')) None,
                     AddDescendant (Fresh (Message_new ''user'' ''b'')) None, Up,
                     ReturnToCurrent] of
      Some s \<Rightarrow> right s = Some (Raise IndexError s)
    | None \<Rightarrow> False)"
  by (simp add: chat_eval)

text \<open>
  Claim C5 fails on the code. \<open>top()\<close> takes \<open>_path[0]\<close>, and the path starts with the
  root. After \<open>Chat()\<close> and one \<open>addDescendant\<close> the cursor is below the first real
  level (\<open>canMoveUp()\<close> holds), and \<open>top()\<close> makes the root sentinel the cursor.
\<close>

theorem top_moves_cursor_to_root:
  "(case chat_after [AddDescendant (Fresh (Message_new ''user'' ''hi'')) None] of
      Some s \<Rightarrow>
        canMoveUp s
          \<and> (case top s of Some (Ok s') \<Rightarrow> c_cursor s' = c_root s' | _ \<Rightarrow> False)
    | None \<Rightarrow> False)"
  by (simp add: chat_eval)

lemma messages_loop_Suc:
  "messages_loop s (Suc i) es = concat (map (entry_messages s) es)"
  by (induction es arbitrary: i) (simp_all add: entry_messages_def)

lemma messages_loop_0:
  "messages_loop s 0 ps =
     concat (map (entry_messages s)
       (case ps of [] \<Rightarrow> [] | r # rest \<Rightarrow> if isDefaultContent s r then rest else ps))"
  by (cases ps) (simp_all add: messages_loop_Suc entry_messages_def)

lemmas msg_eval = messages_def messages_loop_0 entry_messages_def isDefaultContent_def
  Message_isDefault_def Response_isDefault_def Response_Default_def Usage_isDefault_def
  Usage_Default_def Message_Default_def DEFAULT_ID_def DEFAULT_TIME_def hello_response_def

text \<open>
  Claim C6 as stated fails. After \<open>Chat()\<close>, \<open>addDescendant(Message("user", "hi"))\<close>,
  the assignment of a response holding the assistant's \<open>hello\<close> to that entry, and
  \<open>addDescendant(Message("assistant", "hello"))\<close>, the path of \<open>current\<close> does not have
  length 2 and \<open>messages()\<close> is not the list of the two messages.
\<close>

theorem messages_scenario_counterexample:
  "(case chat_after [AddDescendant (Fresh (Message_new ''user'' ''hi'')) None,
                     NewResponse hello_response, SetCurrentResponse 5,
                     AddDescendant (Fresh (Message_new ''assistant'' ''hello'')) None] of
      Some s \<Rightarrow>
        map_option length (path (entries s) (c_current s)) \<noteq> Some 2
          \<and> messages s (c_current s)
              \<noteq> Some [Message_new ''user'' ''hi'', Message_new ''assistant'' ''hello'']
    | None \<Rightarrow> False)"
  by (simp add: chat_eval msg_eval)

text \<open>
  Claim C6, as amended. \<open>messages()\<close> on an entry is the concatenation, over the
  entries of its path (without the first one when that has default content, as the root
  has), of the entry's prompt followed by the first choice of its response when there is
  one. After \<open>Chat()\<close> and the two calls of \<open>addDescendant\<close> the path of \<open>current\<close> has
  length 4 (the root, the empty entry made by \<open>Chat()\<close>, and the two added entries) and
  \<open>messages()\<close> on the second added entry is the empty message of the initial entry, then
  \<open>hi\<close> and \<open>hello\<close>; when the first added entry's response holds the assistant's
  \<open>hello\<close>, that message comes once more, between the two prompts.
\<close>

theorem messages_linearizes_path:
  "messages s e =
     map_option
       (\<lambda>ps. concat (map (entry_messages s)
                (case ps of [] \<Rightarrow> [] | r # rest \<Rightarrow> if isDefaultContent s r then rest else ps)))
       (path (entries s) e)
   \<and> (case chat_after [AddDescendant (Fresh (Message_new ''user'' ''hi'')) None,
                        AddDescendant (Fresh (Message_new ''assistant'' ''hello'')) None] of
        Some t \<Rightarrow>
          map_option length (path (entries t) (c_current t)) = Some 4
            \<and> messages t (c_current t)
                = Some [Message_new [] [], Message_new ''user'' ''hi'',
                        Message_new ''assistant'' ''hello'']
      | None \<Rightarrow> False)
   \<and> (case chat_after [AddDescendant (Fresh (Message_new ''user'' ''hi'')) None,
                        NewResponse hello_response, SetCurrentResponse 5,
                        AddDescendant (Fresh (Message_new ''assistant'' ''hello'')) None] of
        Some t \<Rightarrow>
          map_option length (path (entries t) (c_current t)) = Some 4
            \<and> messages t (c_current t)
                = Some [Message_new [] [], Message_new ''user'' ''hi'',
                        Message_new ''assistant'' ''hello'', Message_new ''assistant'' ''hello'']
      | None \<Rightarrow> False)"
proof (intro conjI)
  show "messages s e =
     map_option
       (\<lambda>ps. concat (map (entry_messages s)
                (case ps of [] \<Rightarrow> [] | r # rest \<Rightarrow> if isDefaultContent s r then rest else ps)))
       (path (entries s) e)"
    by (simp add: messages_def messages_loop_0 cong: option.map_cong)
next
  show "case chat_after [AddDescendant (Fresh (Message_new ''user'' ''hi'')) None,
                        AddDescendant (Fresh (Message_new ''assistant'' ''hello'')) None] of
        Some t \<Rightarrow>
          map_option length (path (entries t) (c_current t)) = Some 4
            \<and> messages t (c_current t)
                = Some [Message_new [] [], Message_new ''user'' ''hi'',
                        Message_new ''assistant'' ''hello'']
      | None \<Rightarrow> False"
    by (simp add: chat_eval msg_eval)
next
  show "case chat_after [AddDescendant (Fresh (Message_new ''user'' ''hi'')) None,
                        NewResponse hello_response, SetCurrentResponse 5,
                        AddDescendant (Fresh (Message_new ''assistant'' ''hello'')) None] of
        Some t \<Rightarrow>
          map_option length (path (entries t) (c_current t)) = Some 4
            \<and> messages t (c_current t)
                = Some [Message_new [] [], Message_new ''user'' ''hi'',
                        Message_new ''assistant'' ''hello'', Message_new ''assistant'' ''hello'']
      | None \<Rightarrow> False"
    by (simp add: chat_eval msg_eval)
qed

lemma updateCursorAttrs_frame:
  "updateCursorAttrs t = Some r \<Longrightarrow>
     entries (state_of r) = entries t \<and> responses (state_of r) = responses t
       \<and> next_response (state_of r) = next_response t \<and> next_entry (state_of r) = next_entry t
       \<and> c_current (state_of r) = c_current t"
  by (auto simp: updateCursorAttrs_def Let_def split: option.splits sum.splits)

lemma addDescendant_frame:
  assumes "addDescendant p r s = Some (Ok s')"
  shows "c_current s' = next_entry s
     \<and> e_response (entries s' (next_entry s))
         = (case r of None \<Rightarrow> addDescendant_default | Some x \<Rightarrow> x)
     \<and> responses s' = responses s \<and> next_response s' = next_response s"
proof -
  define h where "h = alloc (entries s) (next_entry s) p
     (case r of None \<Rightarrow> addDescendant_default | Some x \<Rightarrow> x) (Some (c_cursor s))"
  obtain t where t: "updateCursorAttrs t = Some (Ok s')" "entries t = h"
    "responses t = responses s" "next_response t = next_response s" "c_current t = next_entry s"
    using assms unfolding addDescendant_def h_def
    by (auto simp: ChatEntry_init_alloc Let_def split: option.splits)
  have "e_response (h (next_entry s)) = (case r of None \<Rightarrow> addDescendant_default | Some x \<Rightarrow> x)"
    unfolding h_def by (cases "Some (c_cursor s) = Some (next_entry s)")
      (simp_all add: alloc_payload alloc_def Let_def)
  then show ?thesis using updateCursorAttrs_frame [OF t(1)] t by simp
qed

lemma addSibling_frame:
  assumes "addSibling p r s = Some (Ok s')"
  shows "c_current s' = next_entry s
     \<and> e_response (entries s' (next_entry s))
         = (case r of None \<Rightarrow> addSibling_default | Some x \<Rightarrow> x)
     \<and> responses s' = (responses s)
          (e_response (entries s (c_current s)) :=
             (responses s (e_response (entries s (c_current s))))\<lparr>r_choices := []\<rparr>)
     \<and> next_response s' = next_response s
     \<and> (\<forall>a. a \<noteq> next_entry s \<longrightarrow> e_response (entries s' a) = e_response (entries s a))"
proof -
  define r' where "r' = (case r of None \<Rightarrow> addSibling_default | Some x \<Rightarrow> x)"
  define par where "par = e_parent (entries s (c_cursor s))"
  define h where "h = alloc (entries s) (next_entry s) p r' par"
  define pa where "pa = e_prompt (entries s (c_current s))"
  define ra where "ra = e_response (entries s (c_current s))"
  obtain t where t: "updateCursorAttrs t = Some (Ok s')" "entries t = h"
    "responses t = (responses s)(ra := (responses s ra)\<lparr>r_choices := []\<rparr>)"
    "next_response t = next_response s" "c_current t = next_entry s"
    using assms unfolding addSibling_def
    by (auto simp: ChatEntry_init_alloc Let_def r'_def [symmetric] pa_def [symmetric]
          ra_def [symmetric] par_def [symmetric] h_def [symmetric]
          simp del: fun_upd_apply split: option.splits)
  have new: "e_response (h (next_entry s)) = r'"
    unfolding h_def by (cases par) (simp_all add: alloc_def Let_def)
  have old: "\<forall>a. a \<noteq> next_entry s \<longrightarrow> e_response (h a) = e_response (entries s a)"
    unfolding h_def by (simp add: alloc_old_payload)
  show ?thesis
    using updateCursorAttrs_frame [OF t(1)] t new old by (simp add: r'_def ra_def)
qed

lemma addSibling_next_response:
  assumes "addSibling p q s = Some r"
  shows "next_response (state_of r) = next_response s"
  using assms unfolding addSibling_def
  by (auto simp: ChatEntry_init_alloc Let_def simp del: fun_upd_apply split: option.splits
        dest!: updateCursorAttrs_frame)

lemma addDescendant_next_response:
  assumes "addDescendant p q s = Some r"
  shows "next_response (state_of r) = next_response s"
  using assms unfolding addDescendant_def
  by (auto simp: ChatEntry_init_alloc Let_def simp del: fun_upd_apply split: option.splits
        dest!: updateCursorAttrs_frame)

lemma step_next_response:
  assumes "step x s = Some r"
  shows "next_response s \<le> next_response (state_of r)"
proof (cases x)
  case (AddSibling p q)
  then have "addSibling (fst (pass_prompt p s)) q (snd (pass_prompt p s)) = Some r"
    using assms by (simp add: split_def Let_def)
  from addSibling_next_response [OF this] show ?thesis
    using pass_prompt_fields [of p s] by simp
next
  case (AddDescendant p q)
  then have "addDescendant (fst (pass_prompt p s)) q (snd (pass_prompt p s)) = Some r"
    using assms by (simp add: split_def Let_def)
  from addDescendant_next_response [OF this] show ?thesis
    using pass_prompt_fields [of p s] by simp
next
  case Up
  then show ?thesis using assms
    by (auto simp: up_def split: option.splits if_splits dest!: updateCursorAttrs_frame)
next
  case Down
  then show ?thesis using assms
    by (auto simp: down_def split: option.splits if_splits sum.splits dest!: updateCursorAttrs_frame)
next
  case Left
  then show ?thesis using assms
    by (auto simp: left_def split: option.splits if_splits sum.splits dest!: updateCursorAttrs_frame)
next
  case Right
  then show ?thesis using assms
    by (auto simp: right_def split: option.splits if_splits sum.splits dest!: updateCursorAttrs_frame)
next
  case Top
  then show ?thesis using assms
    by (auto simp: top_def split: option.splits if_splits sum.splits dest!: updateCursorAttrs_frame)
next
  case Bottom
  then show ?thesis using assms
    by (auto simp: bottom_def split: option.splits if_splits dest!: updateCursorAttrs_frame)
next
  case ReturnToCurrent
  then show ?thesis using assms by (auto simp: returnToCurrent_def)
next
  case Clear
  then show ?thesis
    using assms unfolding step.simps Clear clear_def
    by (auto simp: ChatEntry_init_alloc Response_new_def Message_alloc_def Let_def
          simp del: fun_upd_apply split: option.splits)
next
  case (NewMessage q)
  then show ?thesis using assms by (auto simp: Message_alloc_def)
next
  case (NewResponse q)
  then show ?thesis using assms by (auto simp: Response_new_def)
next
  case (SetCurrentResponse q)
  then show ?thesis using assms by auto
next
  case (SetCurrentChoices q)
  then show ?thesis using assms by auto
next
  case (SetPromptContent q)
  then show ?thesis using assms by auto
next
  case (SetPromptRole q)
  then show ?thesis using assms by auto
qed

lemma reachable_next_response: "reachable s \<Longrightarrow> 3 \<le> next_response s"
proof (induction rule: reachable.induct)
  case (init s0 r)
  have "next_response s0 \<le> next_response (state_of r)"
    using init(3) unfolding Chat_init_def clear_def
    by (auto simp: ChatEntry_init_alloc Response_new_def Message_alloc_def Let_def
          simp del: fun_upd_apply split: option.splits)
  then show ?case using init(2) by simp
next
  case (call s x r)
  then show ?case using step_next_response [of x s r] by simp
qed

text \<open>
  Claim C10 as stated fails. The entries made by \<open>Chat()\<close>, by \<open>addDescendant\<close> and by
  \<open>addSibling\<close>, all without a response from the caller, hold three different
  \<open>Response\<close> objects; and after the choices of the first entry's response were
  assigned, they are still there when \<open>addSibling\<close> has cleared the choices of the
  superseded \<open>current\<close>.
\<close>

theorem shared_default_counterexample:
  "(case chat_after [SetCurrentChoices [PlainMessage (Message_new ''assistant'' ''hello'')],
                     AddDescendant (Fresh (Message_new ''user'' ''a'')) None,
                     AddSibling (Fresh (Message_new ''user'' ''b'')) None] of
      Some s \<Rightarrow>
        e_response (entries s 1) \<noteq> e_response (entries s 2)
          \<and> e_response (entries s 2) \<noteq> e_response (entries s 3)
          \<and> e_response (entries s 1) \<noteq> e_response (entries s 3)
          \<and> r_choices (responses s (e_response (entries s 1))) \<noteq> []
    | None \<Rightarrow> False)"
  by (simp add: chat_eval)

text \<open>
  Claim C10, as amended. \<open>addSibling\<close> and \<open>addDescendant\<close> each have a default
  \<open>Response\<close> object of their own, made once: an entry made by \<open>addDescendant\<close> without
  a response holds the one, an entry made by \<open>addSibling\<close> without a response holds the
  other, and \<open>clear\<close> gives its entry a newly made \<open>Response\<close>, which is none of the
  defaults. When \<open>addSibling\<close> clears the choices of the superseded \<open>current\<close>, the
  choices seen through any other entry are empty afterwards when that entry holds the
  same \<open>Response\<close> object as the superseded \<open>current\<close>, and unchanged otherwise.
\<close>

theorem default_response_instances:
  assumes "reachable s"
  shows "addSibling_default \<noteq> addDescendant_default
     \<and> (\<forall>p s'. addDescendant p None s = Some (Ok s') \<longrightarrow>
           e_response (entries s' (c_current s')) = addDescendant_default)
     \<and> (\<forall>p r s'. addSibling p r s = Some (Ok s') \<longrightarrow>
           (r = None \<longrightarrow> e_response (entries s' (c_current s')) = addSibling_default)
           \<and> (\<forall>a. a \<noteq> c_current s' \<longrightarrow>
                 r_choices (responses s' (e_response (entries s' a))) =
                   (if e_response (entries s a) = e_response (entries s (c_current s)) then []
                    else r_choices (responses s (e_response (entries s a))))))
     \<and> (\<forall>s'. clear s = Some (Ok s') \<longrightarrow>
           e_response (entries s' (c_current s')) = next_response s
           \<and> next_response s' = Suc (next_response s)
           \<and> e_response (entries s' (c_current s'))
               \<notin> {ChatEntry_init_default, addSibling_default, addDescendant_default})"
proof (intro conjI allI impI)
  show "addSibling_default \<noteq> addDescendant_default"
    by (simp add: addSibling_default_def addDescendant_default_def)
next
  fix p s' assume "addDescendant p None s = Some (Ok s')"
  from addDescendant_frame [OF this]
  show "e_response (entries s' (c_current s')) = addDescendant_default" by simp
next
  fix p r s' assume "addSibling p r s = Some (Ok s')" "r = None"
  then show "e_response (entries s' (c_current s')) = addSibling_default"
    using addSibling_frame [of p r s s'] by simp
next
  fix p r s' a assume a: "addSibling p r s = Some (Ok s')" "a \<noteq> c_current s'"
  from addSibling_frame [OF a(1)] a(2)
  show "r_choices (responses s' (e_response (entries s' a))) =
          (if e_response (entries s a) = e_response (entries s (c_current s)) then []
           else r_choices (responses s (e_response (entries s a))))"
    by simp
next
  fix s' assume c: "clear s = Some (Ok s')"
  have w: "wf s" using assms by (rule reachable_wf)
  obtain s'' where s'': "clear s = Some (Ok s'')" "c_current s'' = next_entry s"
    "e_response (entries s'' (next_entry s)) = next_response s"
    "next_response s'' = Suc (next_response s)"
    using clear_spec [of s] w by (auto simp: wf_def)
  then have e: "s'' = s'" using c by simp
  show "e_response (entries s' (c_current s')) = next_response s" using s'' e by simp
  show "next_response s' = Suc (next_response s)" using s'' e by simp
  show "e_response (entries s' (c_current s'))
               \<notin> {ChatEntry_init_default, addSibling_default, addDescendant_default}"
    using s'' e reachable_next_response [OF assms]
    by (simp add: ChatEntry_init_default_def addSibling_default_def addDescendant_default_def)
qed

text \<open>
  After \<open>Chat()\<close>, \<open>addDescendant\<close>, an assignment to the choices of the response of
  \<open>current\<close> and a second \<open>addDescendant\<close>, the entries 2 and 3 hold the default object
  of \<open>addDescendant\<close>, whose choices are not empty; \<open>addSibling\<close>, called with a new
  \<open>Message\<close> (the object at address 4), then empties the choices seen through entry 2.
\<close>

theorem default_response_instances_witness:
  "(case chat_after [AddDescendant (Fresh (Message_new ''user'' ''a'')) None,
                     SetCurrentChoices [PlainMessage (Message_new ''assistant'' ''hello'')],
                     AddDescendant (Fresh (Message_new ''user'' ''b'')) None,
                     NewMessage (Message_new ''user'' ''c'')] of
      Some s \<Rightarrow>
        reachable s
          \<and> e_response (entries s 2) = e_response (entries s (c_current s))
          \<and> r_choices (responses s (e_response (entries s 2))) \<noteq> []
          \<and> prompts s 4 = Message_new ''user'' ''c''
          \<and> (case addSibling 4 None s of
                Some (Ok s') \<Rightarrow>
                  e_response (entries s' (c_current s')) = addSibling_default
                    \<and> r_choices (responses s' (e_response (entries s' 2))) = []
              | _ \<Rightarrow> False)
    | None \<Rightarrow> False)"
proof -
  obtain s where s: "chat_after [AddDescendant (Fresh (Message_new ''user'' ''a'')) None,
                     SetCurrentChoices [PlainMessage (Message_new ''assistant'' ''hello'')],
                     AddDescendant (Fresh (Message_new ''user'' ''b'')) None,
                     NewMessage (Message_new ''user'' ''c'')] = Some s"
    and v: "e_response (entries s 2) = e_response (entries s (c_current s))"
      "r_choices (responses s (e_response (entries s 2))) \<noteq> []" "next_entry s = 4"
      "prompts s 4 = Message_new ''user'' ''c''"
    by (simp add: chat_eval)
  have r: "reachable s" using s by (rule chat_after_reachable) simp
  have w: "wf s" using r by (rule reachable_wf)
  obtain s' where s': "addSibling 4 None s = Some (Ok s')"
    "c_current s' = next_entry s"
    using addSibling_spec [OF w, of 4 None] by blast
  have th: "e_response (entries s' (c_current s')) = addSibling_default
     \<and> (\<forall>a. a \<noteq> c_current s' \<longrightarrow>
           r_choices (responses s' (e_response (entries s' a))) =
             (if e_response (entries s a) = e_response (entries s (c_current s)) then []
              else r_choices (responses s (e_response (entries s a)))))"
    using default_response_instances [OF r] s'(1) by blast
  have "2 \<noteq> c_current s'" using s'(2) v(3) by simp
  then have "r_choices (responses s' (e_response (entries s' 2))) = []"
    using th v(1) by simp
  then show ?thesis using s r v s'(1) th by simp
qed

lemmas parse_eval = Response_FromApiResponse_def parseResponse_dict_def
  Message_FromApiResponse_def Message_init_def Usage_FromApiResponse_def toApiResponse_def
  Message_toApiMessage_def Usage_isDefault_def toApiUsage_def Usage_Default_def Let_def
  api_first_choice_def api_first_content_def serialized_first_content_def api_usage_counts_def
  sample_api_response_def PartialMessage_FromApiResponse_def PartialMessage_FromApiResponses_def

lemma Message_init_content:
  "Message_init role content ident created = Inr m \<Longrightarrow> content = PStr (m_content m)"
  by (auto simp: Message_init_def split: pyval.splits if_splits)

lemma Message_FromApiResponse_content:
  assumes "Message_FromApiResponse d = Inr (Some m)"
  shows "api_first_content (PDict d) = Some (PStr (m_content m))"
proof -
  obtain choices ident created where f: "map_of d ''choices'' = Some choices"
    "map_of d ''id'' = Some ident" "map_of d ''created'' = Some created"
    using assms unfolding Message_FromApiResponse_def
    by (auto split: option.splits)
  obtain c rest where ch: "choices = PList (PDict c # rest)"
    using assms f unfolding Message_FromApiResponse_def
    by (auto split: if_splits pyval.splits list.splits)
  let ?sel = "if map_of c ''delta'' \<noteq> None then map_of c ''delta'' else map_of c ''message''"
  obtain mm where mm: "?sel = Some (PDict mm)"
    using assms f ch unfolding Message_FromApiResponse_def Let_def
    by (auto split: if_splits pyval.splits option.splits)
  obtain content where co: "map_of mm ''content'' = Some content"
    using assms f ch mm unfolding Message_FromApiResponse_def Let_def
    by (auto split: if_splits pyval.splits option.splits)
  obtain role where "Message_init role content ident created = Inr m"
    using assms f ch mm co unfolding Message_FromApiResponse_def Let_def
    by (auto split: if_splits pyval.splits option.splits sum.splits)
  then have "content = PStr (m_content m)" by (rule Message_init_content)
  then show ?thesis
    using f(1) ch mm co by (auto simp: api_first_content_def api_first_choice_def split: if_splits)
qed

lemma choices_loop_result:
  "choices_loop d cs acc = Inr (Some out) \<Longrightarrow>
     (cs = [] \<and> out = acc)
     \<or> (\<exists>m. Message_FromApiResponse d = Inr (Some m)
            \<and> out = acc @ replicate (length cs) (PlainMessage m))"
proof (induction cs arbitrary: acc)
  case Nil
  then show ?case by simp
next
  case (Cons c cs)
  then obtain m where m: "Message_FromApiResponse d = Inr (Some m)"
    "choices_loop d cs (acc @ [PlainMessage m]) = Inr (Some out)"
    by (auto split: sum.splits option.splits)
  from Cons.IH [OF m(2)] m(1) show ?case
    by (auto simp: replicate_append_same)
qed

lemma usage_round_trip:
  assumes "us = (if truthy ua
                 then (case ua of
                         PDict u \<Rightarrow> (case Usage_FromApiResponse u of None \<Rightarrow> Usage_Default | Some x \<Rightarrow> x)
                       | _ \<Rightarrow> Usage_Default)
                 else Usage_Default)"
    and "ua = (case map_of d ''usage'' of None \<Rightarrow> PNone | Some u \<Rightarrow> u)"
  shows "(if \<not> Usage_isDefault us then Some (toApiUsage us) else None)
     = (case api_usage_counts (PDict d) of
          None \<Rightarrow> None
        | Some (p, c, t) \<Rightarrow>
            if py_eq_int p 0 \<and> py_eq_int c 0 \<and> py_eq_int t 0 then None
            else Some (PDict [(''prompt_tokens'', p), (''completion_tokens'', c),
                              (''total_tokens'', t)]))"
proof (cases "api_usage_counts (PDict d)")
  case None
  have "us = Usage_Default"
  proof (cases ua)
    case (PDict u)
    then have "map_of d ''usage'' = Some (PDict u)"
      using assms(2) by (auto split: option.splits)
    then have "Usage_FromApiResponse u = None"
      using None by (auto simp: api_usage_counts_def Usage_FromApiResponse_def
          split: option.splits if_splits)
    then show ?thesis using assms(1) PDict by simp
  qed (simp_all add: assms(1))
  then show ?thesis
    using None by (simp add: Usage_isDefault_def Usage_Default_def)
next
  case (Some pct)
  obtain p c t where pct: "pct = (p, c, t)" by (cases pct) auto
  obtain u where u: "map_of d ''usage'' = Some (PDict u)"
    "map_of u ''prompt_tokens'' = Some p" "map_of u ''completion_tokens'' = Some c"
    "map_of u ''total_tokens'' = Some t" "is_int p" "is_int c" "is_int t"
    using Some pct by (auto simp: api_usage_counts_def split: option.splits pyval.splits if_splits)
  have ua: "ua = PDict u" using assms(2) u(1) by simp
  have "u \<noteq> []" using u(2) by auto
  then have "us = \<lparr>prompt_tokens = p, completion_tokens = c, total_tokens = t\<rparr>"
    using assms(1) ua u by (simp add: Usage_FromApiResponse_def)
  then show ?thesis
    using Some pct by (simp add: Usage_isDefault_def toApiUsage_def)
qed

lemma parseResponse_dict_fields:
  assumes "parseResponse_dict d = Inr (Some resp)"
  shows "\<exists>cs. map_of d ''choices'' = Some (PList cs)
     \<and> map_of d ''id'' = Some (PStr (r_id resp))
     \<and> map_of d ''created'' = Some (r_created resp)
     \<and> map_of d ''model'' = Some (PStr (r_model resp))
     \<and> map_of d ''object'' = Some (PStr (r_object resp))
     \<and> choices_loop d cs [] = Inr (Some (r_choices resp))
     \<and> r_usage resp =
         (if truthy (case map_of d ''usage'' of None \<Rightarrow> PNone | Some u \<Rightarrow> u)
          then (case (case map_of d ''usage'' of None \<Rightarrow> PNone | Some u \<Rightarrow> u) of
                  PDict u \<Rightarrow> (case Usage_FromApiResponse u of None \<Rightarrow> Usage_Default | Some x \<Rightarrow> x)
                | _ \<Rightarrow> Usage_Default)
          else Usage_Default)"
proof -
  obtain choicesApi idApi createdApi modelApi objectApi where
    f: "map_of d ''choices'' = Some choicesApi" "map_of d ''id'' = Some idApi"
       "map_of d ''created'' = Some createdApi" "map_of d ''model'' = Some modelApi"
       "map_of d ''object'' = Some objectApi"
    using assms unfolding parseResponse_dict_def by (auto split: option.splits)
  obtain cs i m ob where t: "choicesApi = PList cs" "idApi = PStr i" "modelApi = PStr m"
    "objectApi = PStr ob"
    using assms f unfolding parseResponse_dict_def Let_def
    by (auto split: pyval.splits)
  obtain choices where c: "choices_loop d cs [] = Inr (Some choices)"
    using assms f t unfolding parseResponse_dict_def Let_def
    by (auto split: if_splits sum.splits option.splits)
  show ?thesis
    using assms f t c unfolding parseResponse_dict_def Let_def
    by (auto split: if_splits)
qed

lemma toApiResponse_fields:
  "api_field (toApiResponse resp) ''id'' = Some (PStr (r_id resp))"
  "api_field (toApiResponse resp) ''created'' = Some (r_created resp)"
  "api_field (toApiResponse resp) ''model'' = Some (PStr (r_model resp))"
  "api_field (toApiResponse resp) ''choices'' = Some (PList (map toApiMessage (r_choices resp)))"
  "api_field (toApiResponse resp) ''usage''
     = (if \<not> Usage_isDefault (r_usage resp) then Some (toApiUsage (r_usage resp)) else None)"
  by (simp_all add: toApiResponse_def)

text \<open>
  What \<open>toApiResponse()\<close> keeps of a payload that \<open>Response.FromApiResponse\<close> has
  parsed.
\<close>

lemma parsed_round_trip:
  assumes "Response_FromApiResponse r = Inr (Some resp)"
  shows "api_field (toApiResponse resp) ''id'' = api_field r ''id''
     \<and> api_field (toApiResponse resp) ''created'' = api_field r ''created''
     \<and> api_field (toApiResponse resp) ''model'' = api_field r ''model''
     \<and> (api_first_choice r \<noteq> None \<longrightarrow>
           api_first_content r \<noteq> None
           \<and> serialized_first_content (toApiResponse resp) = api_first_content r)
     \<and> api_field (toApiResponse resp) ''usage''
         = (case api_usage_counts r of
              None \<Rightarrow> None
            | Some (p, c, t) \<Rightarrow>
                if py_eq_int p 0 \<and> py_eq_int c 0 \<and> py_eq_int t 0 then None
                else Some (PDict [(''prompt_tokens'', p), (''completion_tokens'', c),
                                  (''total_tokens'', t)]))"
proof -
  obtain d where d: "r = PDict d" "parseResponse_dict d = Inr (Some resp)"
    using assms unfolding Response_FromApiResponse_def parseResponse_list_def
    by (auto split: pyval.splits if_splits)
  obtain cs where f: "map_of d ''choices'' = Some (PList cs)"
     "map_of d ''id'' = Some (PStr (r_id resp))"
     "map_of d ''created'' = Some (r_created resp)"
     "map_of d ''model'' = Some (PStr (r_model resp))"
     "choices_loop d cs [] = Inr (Some (r_choices resp))"
     and us: "r_usage resp =
         (if truthy (case map_of d ''usage'' of None \<Rightarrow> PNone | Some u \<Rightarrow> u)
          then (case (case map_of d ''usage'' of None \<Rightarrow> PNone | Some u \<Rightarrow> u) of
                  PDict u \<Rightarrow> (case Usage_FromApiResponse u of None \<Rightarrow> Usage_Default | Some x \<Rightarrow> x)
                | _ \<Rightarrow> Usage_Default)
          else Usage_Default)"
    using parseResponse_dict_fields [OF d(2)] by blast
  have u: "api_field (toApiResponse resp) ''usage''
         = (case api_usage_counts r of
              None \<Rightarrow> None
            | Some (p, c, t) \<Rightarrow>
                if py_eq_int p 0 \<and> py_eq_int c 0 \<and> py_eq_int t 0 then None
                else Some (PDict [(''prompt_tokens'', p), (''completion_tokens'', c),
                                  (''total_tokens'', t)]))"
    unfolding toApiResponse_fields d(1) by (rule usage_round_trip [OF us refl])
  have c: "api_first_content r \<noteq> None
           \<and> serialized_first_content (toApiResponse resp) = api_first_content r"
    if "api_first_choice r \<noteq> None"
  proof -
    have "cs \<noteq> []" using that f(1) d(1) by (auto simp: api_first_choice_def)
    then obtain m where m: "Message_FromApiResponse d = Inr (Some m)"
      "r_choices resp = replicate (length cs) (PlainMessage m)"
      using choices_loop_result [OF f(5)] by auto
    obtain n where n: "length cs = Suc n" using \<open>cs \<noteq> []\<close> by (cases cs) auto
    have "serialized_first_content (toApiResponse resp) = Some (PStr (m_content m))"
      unfolding serialized_first_content_def api_first_choice_def toApiResponse_fields
      using m(2) n by (simp add: Message_toApiMessage_def)
    then show ?thesis using Message_FromApiResponse_content [OF m(1)] d(1) by simp
  qed
  show ?thesis
    using f(2,3,4) u c by (simp add: toApiResponse_fields d(1))
qed

lemma has_strD: "has_str d k \<Longrightarrow> \<exists>s. map_of d k = Some (PStr s)"
  by (auto simp: has_str_def split: option.splits pyval.splits)

lemma choice_parses_Message:
  assumes d: "map_of d ''choices'' = Some (PList (c # cs))" "map_of d ''id'' = Some (PStr i)"
    "map_of d ''created'' = Some cr" "is_int cr"
    and c: "choice_parses c"
  shows "\<exists>m. Message_FromApiResponse d = Inr (Some m)"
proof -
  obtain cd where cd: "c = PDict cd" using c by (cases c) (simp_all add: choice_parses_def)
  show ?thesis
  proof (cases "map_of cd ''delta''")
    case None
    then obtain m where m: "map_of cd ''message'' = Some (PDict m)" "has_str m ''content''"
      "has_str m ''role''"
      using c cd by (auto simp: choice_parses_def split: option.splits pyval.splits)
    obtain co ro where "map_of m ''content'' = Some (PStr co)" "map_of m ''role'' = Some (PStr ro)"
      using has_strD m(2,3) by blast
    then show ?thesis
      using d cd None m(1) by (simp add: Message_FromApiResponse_def Message_init_def)
  next
    case (Some dl)
    then obtain m where m: "dl = PDict m" "has_str m ''content''"
      using c cd by (auto simp: choice_parses_def split: pyval.splits)
    obtain co where "map_of m ''content'' = Some (PStr co)"
      using has_strD m(2) by blast
    then show ?thesis
      using d cd Some m(1) by (simp add: Message_FromApiResponse_def Message_init_def)
  qed
qed

lemma choices_loop_total:
  "Message_FromApiResponse d = Inr (Some m) \<Longrightarrow>
     choices_loop d cs acc = Inr (Some (acc @ replicate (length cs) (PlainMessage m)))"
  by (induction cs arbitrary: acc) (simp_all add: replicate_append_same)

lemma parseResponse_dict_accepts:
  assumes ch: "map_of d ''choices'' = Some (PList cs)"
    and s: "map_of d ''id'' = Some (PStr i)" "map_of d ''model'' = Some (PStr mo)"
      "map_of d ''object'' = Some (PStr ob)"
    and cr: "map_of d ''created'' = Some cr" "is_int cr"
    and us: "ua = (case map_of d ''usage'' of None \<Rightarrow> PNone | Some u \<Rightarrow> u)"
      "is_dict ua \<or> \<not> truthy ua"
    and lp: "choices_loop d cs [] = Inr (Some out)"
  shows "\<exists>resp. parseResponse_dict d = Inr (Some resp)"
proof -
  have g: "\<not> (truthy ua \<and> \<not> is_dict ua)" using us(2) by blast
  show ?thesis
    unfolding parseResponse_dict_def Let_def us(1) [symmetric] ch s cr(1)
    using cr(2) g lp by (simp del: choices_loop.simps)
qed

lemma well_formed_response_parsed:
  assumes "well_formed_response r"
  shows "\<exists>resp. Response_FromApiResponse r = Inr (Some resp)"
proof -
  obtain d where r: "r = PDict d"
    using assms by (cases r) (simp_all add: well_formed_response_def)
  obtain c cs where ch: "map_of d ''choices'' = Some (PList (c # cs))"
    using assms unfolding r well_formed_response_def
    by (auto split: option.splits pyval.splits list.splits)
  have w: "choice_parses c \<and> has_str d ''id''
                 \<and> (case map_of d ''created'' of Some cr \<Rightarrow> is_int cr | None \<Rightarrow> False)
                 \<and> has_str d ''model'' \<and> has_str d ''object''
                 \<and> (case map_of d ''usage'' of
                       None \<Rightarrow> True
                     | Some u \<Rightarrow> is_dict u \<or> \<not> truthy u)"
    using assms unfolding r well_formed_response_def by (simp add: ch)
  obtain cr where cr: "map_of d ''created'' = Some cr" "is_int cr"
    using w by (cases "map_of d ''created''") auto
  define ua where "ua = (case map_of d ''usage'' of None \<Rightarrow> PNone | Some u \<Rightarrow> u)"
  have us: "is_dict ua \<or> \<not> truthy ua"
    using w unfolding ua_def by (cases "map_of d ''usage''") auto
  obtain i where i: "map_of d ''id'' = Some (PStr i)" using has_strD w by blast
  obtain mo where mo: "map_of d ''model'' = Some (PStr mo)" using has_strD w by blast
  obtain ob where ob: "map_of d ''object'' = Some (PStr ob)" using has_strD w by blast
  obtain m where m: "Message_FromApiResponse d = Inr (Some m)"
    using choice_parses_Message [OF ch i cr] w by blast
  have "\<exists>resp. parseResponse_dict d = Inr (Some resp)"
    by (rule parseResponse_dict_accepts [OF ch i mo ob cr ua_def us
          choices_loop_total [OF m, of "c # cs" "[]"]])
  then show ?thesis using r by (simp add: Response_FromApiResponse_def)
qed

section \<open>Claims about payloads\<close>

text \<open>
  Claim C7 as stated fails. A response with every field that the parsing rules of the
  specification require, but without \<open>model\<close> and \<open>object\<close>, is not parsed:
  \<open>Response.FromApiResponse\<close> returns \<open>None\<close>, so there is nothing to serialize. And a
  parsed response whose \<open>usage\<close> is not zero but lacks the total loses its \<open>usage\<close>.
\<close>

theorem spec_valid_response_counterexample:
  "spec_valid_response response_without_model
   \<and> Response_FromApiResponse response_without_model = Inr None
   \<and> (case Response_FromApiResponse response_partial_usage of
         Inr (Some resp) \<Rightarrow>
           api_field response_partial_usage ''usage''
             = Some (PDict [(''prompt_tokens'', PInt 9), (''completion_tokens'', PInt 2)])
           \<and> api_field (toApiResponse resp) ''usage'' = None
       | _ \<Rightarrow> False)"
  by (simp add: parse_eval spec_valid_response_def spec_choice_def has_str_def
        response_without_model_def response_partial_usage_def)

text \<open>
  Claim C7, as amended. A response that has a first choice holding a \<open>delta\<close> object
  with a string content (or, without \<open>delta\<close>, a \<open>message\<close> object with string content
  and role), a string \<open>id\<close>, an integer \<open>created\<close>, strings \<open>model\<close> and \<open>object\<close>, and a
  \<open>usage\<close> that is absent, not true or an object, is parsed by
  \<open>Response.FromApiResponse\<close>. For every response \<open>r\<close> that is parsed, \<open>toApiResponse()\<close>
  has the \<open>id\<close>, \<open>created\<close> and \<open>model\<close> of \<open>r\<close>; when \<open>r\<close> has a first choice, the
  content of the first serialized choice is the content of that choice; and the
  serialized form has a \<open>usage\<close> exactly when the \<open>usage\<close> of \<open>r\<close> has the three token
  counts as integers and they are not all zero, with the same three counts.
\<close>

theorem well_formed_response_round_trip:
  "(well_formed_response r \<longrightarrow> (\<exists>resp. Response_FromApiResponse r = Inr (Some resp)))
   \<and> (Response_FromApiResponse r = Inr (Some resp) \<longrightarrow>
         api_field (toApiResponse resp) ''id'' = api_field r ''id''
         \<and> api_field (toApiResponse resp) ''created'' = api_field r ''created''
         \<and> api_field (toApiResponse resp) ''model'' = api_field r ''model''
         \<and> (api_first_choice r \<noteq> None \<longrightarrow>
               api_first_content r \<noteq> None
               \<and> serialized_first_content (toApiResponse resp) = api_first_content r)
         \<and> api_field (toApiResponse resp) ''usage''
             = (case api_usage_counts r of
                  None \<Rightarrow> None
                | Some (p, c, t) \<Rightarrow>
                    if py_eq_int p 0 \<and> py_eq_int c 0 \<and> py_eq_int t 0 then None
                    else Some (PDict [(''prompt_tokens'', p), (''completion_tokens'', c),
                                      (''total_tokens'', t)])))"
  using well_formed_response_parsed [of r] parsed_round_trip [of r resp] by blast

text \<open>A response of the API with one choice and a usage that is not zero.\<close>

theorem well_formed_response_round_trip_witness:
  "well_formed_response sample_api_response
   \<and> (case Response_FromApiResponse sample_api_response of
         Inr (Some resp) \<Rightarrow>
           api_field (toApiResponse resp) ''id'' = Some (PStr ''chatcmpl-1'')
             \<and> api_field (toApiResponse resp) ''created'' = Some (PInt 1700000000)
             \<and> api_field (toApiResponse resp) ''model'' = Some (PStr ''gpt-4'')
             \<and> api_first_choice sample_api_response \<noteq> None
             \<and> serialized_first_content (toApiResponse resp) = Some (PStr ''hello'')
             \<and> api_field (toApiResponse resp) ''usage''
                 = Some (PDict [(''prompt_tokens'', PInt 9), (''completion_tokens'', PInt 2),
                                (''total_tokens'', PInt 11)])
       | _ \<Rightarrow> False)"
proof -
  have wf: "well_formed_response sample_api_response"
    by (simp add: well_formed_response_def choice_parses_def has_str_def sample_api_response_def)
  obtain resp where r: "Response_FromApiResponse sample_api_response = Inr (Some resp)"
    using well_formed_response_round_trip [of sample_api_response] wf by blast
  have v: "api_field sample_api_response ''id'' = Some (PStr ''chatcmpl-1'')"
    "api_field sample_api_response ''created'' = Some (PInt 1700000000)"
    "api_field sample_api_response ''model'' = Some (PStr ''gpt-4'')"
    "api_first_choice sample_api_response \<noteq> None"
    "api_first_content sample_api_response = Some (PStr ''hello'')"
    "api_usage_counts sample_api_response = Some (PInt 9, PInt 2, PInt 11)"
    by (simp_all add: parse_eval)
  show ?thesis
    using well_formed_response_round_trip [of sample_api_response resp] r v wf by simp
qed

text \<open>
  Claim C8 fails on the code. \<open>Message.FromApiResponse\<close> does not check the type of
  the content before it calls \<open>Message(...)\<close>, whose setter raises \<open>TypeError\<close>
  (\<open>Message.FromApiMessage\<close> checks it and returns \<open>None\<close>). A response whose first
  choice has the content \<open>None\<close> raises, and so does a streamed chunk of that kind in
  \<open>PartialMessage.FromApiResponses\<close>.
\<close>

theorem FromApiResponse_raises_on_null_content:
  "Message_FromApiResponse
     [(''id'', PStr ''chatcmpl-1''), (''created'', PInt 1700000000),
      (''choices'', PList [PDict [(''message'', PDict [(''role'', PStr ''assistant''),
                                                       (''content'', PNone)])]])]
     = Inl TypeError
   \<and> PartialMessage_FromApiResponses
       [[(''id'', PStr ''chatcmpl-1''), (''created'', PInt 1700000000),
         (''choices'', PList [PDict [(''delta'', PDict [(''content'', PNone)])]])]]
     = Inl TypeError"
  by (simp add: parse_eval)

text \<open>So the result for that response is not the absent result \<open>None\<close>.\<close>

theorem FromApiResponse_raises_on_null_content_witness:
  "Message_FromApiResponse
     [(''id'', PStr ''chatcmpl-1''), (''created'', PInt 1700000000),
      (''choices'', PList [PDict [(''message'', PDict [(''role'', PStr ''assistant''),
                                                       (''content'', PNone)])]])]
     \<noteq> Inr None"
  using FromApiResponse_raises_on_null_content by simp

lemmas params_eval = ChatCompletionParams_init_def default_args_def and_then_def blank_params_def
  set_apiKey_def set_model_def set_messages_def set_temperature_def set_max_tokens_def
  set_top_p_def set_n_def set_frequency_penalty_def set_presence_penalty_def set_stop_def
  set_stream_def set_user_def Let_def out_of_range_def

lemma float_outside_checked:
  "float_outside v lo hi \<Longrightarrow> lo \<le> 0 \<Longrightarrow> 0 \<le> hi \<Longrightarrow> truthy v \<and> not_float_in v lo hi"
proof (cases v)
  case (PFloat f)
  assume "float_outside v lo hi" "lo \<le> 0" "0 \<le> hi"
  then show ?thesis using PFloat by (cases f) auto
qed simp_all

lemma int_outside_checked:
  "int_outside v lo hi \<Longrightarrow> truthy v \<and> not_int_in v lo hi"
  by (cases v) auto

lemma list_longer_checked:
  "list_longer v k \<Longrightarrow> truthy v \<and> not_list_upto v k"
  by (cases v) auto

lemma str_longer_checked:
  "str_longer v k \<Longrightarrow> truthy v \<and> not_str_upto v k"
  by (cases v) auto

section \<open>Claims about the parameters\<close>

text \<open>
  Claim C9 as stated fails: a later assignment of a temperature outside the range is
  not refused. On the object made by \<open>ChatCompletionParams(model="gpt-4")\<close> the
  assignment \<open>temperature = 3.0\<close> stores the value.
\<close>

theorem assignment_out_of_range_counterexample:
  "(case ChatCompletionParams_init (default_args (PStr ''gpt-4'')) of
      Inr p \<Rightarrow>
        float_outside (PFloat (Finite 3)) 0 2
          \<and> set_temperature (PFloat (Finite 3)) p = Inr (p\<lparr>p_temperature := PFloat (Finite 3)\<rparr>)
    | Inl e \<Rightarrow> False)"
  by (simp add: params_eval)

text \<open>
  Claim C9, as amended. At construction a sampling control outside its documented
  range (a temperature outside \<open>[0, 2]\<close>, a \<open>top_p\<close> outside \<open>[0, 1]\<close>, an \<open>n\<close> other than
  \<open>0\<close> outside \<open>[1, 10]\<close>, a penalty outside \<open>[-2, 2]\<close>, a \<open>stop\<close> of more than 4 entries,
  a \<open>user\<close> of more than 256 characters) makes \<open>ChatCompletionParams(...)\<close> raise before
  any attribute is assigned: \<open>ValueError\<close>, or the \<open>TypeError\<close> of the check of
  \<open>max_tokens\<close> when that check comes first. A later assignment to the attribute checks
  the type only: every \<open>float\<close>, \<open>int\<close>, list of strings or string is stored.
\<close>

theorem out_of_range_fails_at_construction:
  assumes "out_of_range a"
  shows "ChatCompletionParams_init a =
           Inl (if truthy (a_max_tokens a) \<and> \<not> is_int (a_max_tokens a)
                   \<and> \<not> (truthy (a_temperature a) \<and> not_float_in (a_temperature a) 0 2)
                then TypeError else ValueError)
     \<and> (\<forall>f p. set_temperature (PFloat f) p = Inr (p\<lparr>p_temperature := PFloat f\<rparr>))
     \<and> (\<forall>f p. set_top_p (PFloat f) p = Inr (p\<lparr>p_top_p := PFloat f\<rparr>))
     \<and> (\<forall>i p. set_n (PInt i) p = Inr (p\<lparr>p_n := PInt i\<rparr>))
     \<and> (\<forall>f p. set_frequency_penalty (PFloat f) p = Inr (p\<lparr>p_frequency_penalty := PFloat f\<rparr>))
     \<and> (\<forall>f p. set_presence_penalty (PFloat f) p = Inr (p\<lparr>p_presence_penalty := PFloat f\<rparr>))
     \<and> (\<forall>xs p. list_all is_str xs \<longrightarrow> set_stop (PList xs) p = Inr (p\<lparr>p_stop := PList xs\<rparr>))
     \<and> (\<forall>s p. set_user (PStr s) p = Inr (p\<lparr>p_user := PStr s\<rparr>))"
proof -
  have r: "(truthy (a_temperature a) \<and> not_float_in (a_temperature a) 0 2)
      \<or> (truthy (a_top_p a) \<and> not_float_in (a_top_p a) 0 1)
      \<or> (truthy (a_n a) \<and> not_int_in (a_n a) 1 10)
      \<or> (truthy (a_frequency_penalty a) \<and> not_float_in (a_frequency_penalty a) (- 2) 2)
      \<or> (truthy (a_presence_penalty a) \<and> not_float_in (a_presence_penalty a) (- 2) 2)
      \<or> (truthy (a_stop a) \<and> not_list_upto (a_stop a) 4)
      \<or> (truthy (a_user a) \<and> not_str_upto (a_user a) 256)"
    using assms unfolding out_of_range_def
    using float_outside_checked [of "a_temperature a" 0 2]
      float_outside_checked [of "a_top_p a" 0 1]
      int_outside_checked [of "a_n a" 1 10]
      float_outside_checked [of "a_frequency_penalty a" "- 2" 2]
      float_outside_checked [of "a_presence_penalty a" "- 2" 2]
      list_longer_checked [of "a_stop a" 4]
      str_longer_checked [of "a_user a" 256]
    by auto
  have "ChatCompletionParams_init a =
           Inl (if truthy (a_max_tokens a) \<and> \<not> is_int (a_max_tokens a)
                   \<and> \<not> (truthy (a_temperature a) \<and> not_float_in (a_temperature a) 0 2)
                then TypeError else ValueError)"
    using r unfolding ChatCompletionParams_init_def Let_def by auto
  moreover have "\<forall>xs p. list_all is_str xs \<longrightarrow> set_stop (PList xs) p = Inr (p\<lparr>p_stop := PList xs\<rparr>)"
    by (simp add: set_stop_def)
  ultimately show ?thesis
    by (simp add: set_temperature_def set_top_p_def set_n_def set_frequency_penalty_def
          set_presence_penalty_def set_user_def)
qed

text \<open>\<open>ChatCompletionParams(model="gpt-4", temperature=3.0)\<close> raises \<open>ValueError\<close>.\<close>

theorem out_of_range_fails_at_construction_witness:
  "out_of_range ((default_args (PStr ''gpt-4''))\<lparr>a_temperature := PFloat (Finite 3)\<rparr>)
   \<and> ChatCompletionParams_init ((default_args (PStr ''gpt-4''))\<lparr>a_temperature := PFloat (Finite 3)\<rparr>)
       = Inl ValueError"
proof -
  have o: "out_of_range ((default_args (PStr ''gpt-4''))\<lparr>a_temperature := PFloat (Finite 3)\<rparr>)"
    by (simp add: out_of_range_def default_args_def)
  show ?thesis
    using out_of_range_fails_at_construction [OF o] o by (simp add: default_args_def)
qed

end
